theory Spec2Isabelle
  imports Main "HOL-Library.AList"
begin

section \<open>Python values\<close>

text \<open>
  The values that reach \<^verbatim>\<open>json.dumps\<close> in \<^verbatim>\<open>msa_api.py\<close>: \<^verbatim>\<open>None\<close>, booleans, unbounded
  integers, strings, lists, tuples and dictionaries, and \<open>PObj\<close> for any other object (a
  class, a set, ...), which the JSON encoder rejects. A dictionary is the list of its items
  in insertion order; its keys are strings, integers, booleans or \<^verbatim>\<open>None\<close>. Strings are
  Isabelle strings, so their characters are the code points 0 to 255. Floats are left out.
\<close>

datatype pykey = KStr string | KInt int | KBool bool | KNone

datatype pyval =
    PNone
  | PBool bool
  | PInt int
  | PStr string
  | PList "pyval list"
  | PTuple "pyval list"
  | PDict "(pykey \<times> pyval) list"
  | PObj string

datatype error =
    TypeError
  | KeyError
  | JSONDecodeError
  | AttributeError
  | RequestException
  | SystemExit int

section \<open>Number formatting\<close>

definition hexdigit :: "nat \<Rightarrow> char" where
  "hexdigit d = ''0123456789abcdef'' ! d"

text \<open>Lowercase hexadecimal digits of a natural number, most significant first.\<close>

fun hex :: "nat \<Rightarrow> string" where
  "hex n = (if n < 16 then [hexdigit n] else hex (n div 16) @ [hexdigit (n mod 16)])"

declare hex.simps [simp del]

text \<open>\<^verbatim>\<open>'%0wx' % n\<close> for \<open>n \<ge> 0\<close>: padded with zeros on the left up to width \<open>w\<close>, never cut.\<close>

definition format_0x :: "nat \<Rightarrow> nat \<Rightarrow> string" where
  "format_0x w n = replicate (w - length (hex n)) (CHR ''0'') @ hex n"

definition decdigit :: "nat \<Rightarrow> char" where
  "decdigit d = ''0123456789'' ! d"

fun str_nat :: "nat \<Rightarrow> string" where
  "str_nat n = (if n < 10 then [decdigit n] else str_nat (n div 10) @ [decdigit (n mod 10)])"

declare str_nat.simps [simp del]

text \<open>\<^verbatim>\<open>str(i)\<close> of a Python integer.\<close>

definition str_int :: "int \<Rightarrow> string" where
  "str_int i = (if i < 0 then CHR ''-'' # str_nat (nat (- i)) else str_nat (nat i))"

section \<open>The JSON encoder: \<^verbatim>\<open>json.dumps\<close>\<close>

text \<open>
  \<^verbatim>\<open>json.dumps\<close> of the Python standard library with its default arguments
  (\<^verbatim>\<open>ensure_ascii=True\<close>, separators \<^verbatim>\<open>', '\<close> and \<^verbatim>\<open>': '\<close>). A character outside the printable
  ASCII range, a double quote (code 34) and a backslash (code 92) are escaped.
\<close>

definition escape_char :: "char \<Rightarrow> string" where
  "escape_char c =
    (if c = CHR 0x22 then [CHR 0x5C, CHR 0x22]
     else if c = CHR 0x5C then [CHR 0x5C, CHR 0x5C]
     else if c = CHR 0x0A then [CHR 0x5C, CHR ''n'']
     else if c = CHR 0x0D then [CHR 0x5C, CHR ''r'']
     else if c = CHR 0x09 then [CHR 0x5C, CHR ''t'']
     else if c = CHR 0x08 then [CHR 0x5C, CHR ''b'']
     else if c = CHR 0x0C then [CHR 0x5C, CHR ''f'']
     else if (of_char c :: nat) < 32 \<or> 126 < (of_char c :: nat)
       then CHR 0x5C # CHR ''u'' # format_0x 4 (of_char c)
     else [c])"

definition encode_basestring_ascii :: "string \<Rightarrow> string" where
  "encode_basestring_ascii s = CHR 0x22 # concat (map escape_char s) @ [CHR 0x22]"

text \<open>A dictionary key that is not a string is turned into one by the encoder.\<close>

fun key_str :: "pykey \<Rightarrow> string" where
  "key_str (KStr s) = s"
| "key_str (KInt i) = str_int i"
| "key_str (KBool b) = (if b then ''true'' else ''false'')"
| "key_str KNone = ''null''"

fun join :: "string \<Rightarrow> string list \<Rightarrow> string" where
  "join sep [] = []"
| "join sep [t] = t"
| "join sep (t # u # ts) = t @ sep @ join sep (u # ts)"

text \<open>The result is \<open>None\<close> where \<^verbatim>\<open>json.dumps\<close> raises \<^verbatim>\<open>TypeError\<close>.\<close>

primrec dumps :: "pyval \<Rightarrow> string option"
  and dumps_elems :: "pyval list \<Rightarrow> string list option"
  and dumps_items :: "(pykey \<times> pyval) list \<Rightarrow> string list option"
  and dumps_item :: "pykey \<times> pyval \<Rightarrow> string option"
where
  "dumps PNone = Some ''null''"
| "dumps (PBool b) = Some (if b then ''true'' else ''false'')"
| "dumps (PInt i) = Some (str_int i)"
| "dumps (PStr s) = Some (encode_basestring_ascii s)"
| "dumps (PList xs) = map_option (\<lambda>ts. ''['' @ join '', '' ts @ '']'') (dumps_elems xs)"
| "dumps (PTuple xs) = map_option (\<lambda>ts. ''['' @ join '', '' ts @ '']'') (dumps_elems xs)"
| "dumps (PDict kvs) = map_option (\<lambda>ts. ''{'' @ join '', '' ts @ ''}'') (dumps_items kvs)"
| "dumps (PObj n) = None"
| "dumps_elems [] = Some []"
| "dumps_elems (x # xs) =
    (case dumps x of None \<Rightarrow> None | Some t \<Rightarrow> map_option ((#) t) (dumps_elems xs))"
| "dumps_items [] = Some []"
| "dumps_items (kv # kvs) =
    (case dumps_item kv of None \<Rightarrow> None | Some t \<Rightarrow> map_option ((#) t) (dumps_items kvs))"
| "dumps_item (k, v) =
    map_option (\<lambda>t. encode_basestring_ascii (key_str k) @ '': '' @ t) (dumps v)"

text \<open>
  \<^verbatim>\<open>json.dumps(obj, indent=4)\<close>: every item of a non-empty list or dictionary on a line of
  its own, indented by four spaces for each level of nesting; the item separator is a
  comma, the key separator \<^verbatim>\<open>': '\<close>.
\<close>

definition newline_indent :: "nat \<Rightarrow> string" where
  "newline_indent level = CHR 0x0A # replicate (4 * level) (CHR '' '')"

definition bracket :: "string \<Rightarrow> string \<Rightarrow> nat \<Rightarrow> string list \<Rightarrow> string" where
  "bracket l r level ts =
    (if ts = [] then l @ r
     else l @ newline_indent (Suc level)
       @ join ('','' @ newline_indent (Suc level)) ts @ newline_indent level @ r)"

primrec dumps_indent :: "pyval \<Rightarrow> nat \<Rightarrow> string option"
  and dumps_indent_elems :: "pyval list \<Rightarrow> nat \<Rightarrow> string list option"
  and dumps_indent_items :: "(pykey \<times> pyval) list \<Rightarrow> nat \<Rightarrow> string list option"
  and dumps_indent_item :: "pykey \<times> pyval \<Rightarrow> nat \<Rightarrow> string option"
where
  "dumps_indent PNone level = Some ''null''"
| "dumps_indent (PBool b) level = Some (if b then ''true'' else ''false'')"
| "dumps_indent (PInt i) level = Some (str_int i)"
| "dumps_indent (PStr s) level = Some (encode_basestring_ascii s)"
| "dumps_indent (PList xs) level =
    map_option (bracket ''['' '']'' level) (dumps_indent_elems xs (Suc level))"
| "dumps_indent (PTuple xs) level =
    map_option (bracket ''['' '']'' level) (dumps_indent_elems xs (Suc level))"
| "dumps_indent (PDict kvs) level =
    map_option (bracket ''{'' ''}'' level) (dumps_indent_items kvs (Suc level))"
| "dumps_indent (PObj n) level = None"
| "dumps_indent_elems [] level = Some []"
| "dumps_indent_elems (x # xs) level =
    (case dumps_indent x level of None \<Rightarrow> None
     | Some t \<Rightarrow> map_option ((#) t) (dumps_indent_elems xs level))"
| "dumps_indent_items [] level = Some []"
| "dumps_indent_items (kv # kvs) level =
    (case dumps_indent_item kv level of None \<Rightarrow> None
     | Some t \<Rightarrow> map_option ((#) t) (dumps_indent_items kvs level))"
| "dumps_indent_item (k, v) level =
    map_option (\<lambda>t. encode_basestring_ascii (key_str k) @ '': '' @ t) (dumps_indent v level)"

section \<open>The JSON decoder: \<^verbatim>\<open>json.loads\<close>\<close>

text \<open>
  \<^verbatim>\<open>json.loads\<close> of the Python standard library with its default arguments, as the scanner
  of \<^verbatim>\<open>json.decoder\<close> and \<^verbatim>\<open>json.scanner\<close> reads a text. The result is \<open>None\<close> where
  \<^verbatim>\<open>json.loads\<close> raises \<^verbatim>\<open>JSONDecodeError\<close>, and also on a text that denotes a value outside
  \<open>pyval\<close>: a float (among them \<^verbatim>\<open>NaN\<close> and \<^verbatim>\<open>Infinity\<close>) or a string with a code point
  above 255.
\<close>

definition is_ws :: "char \<Rightarrow> bool" where
  "is_ws c \<longleftrightarrow> c = CHR '' '' \<or> c = CHR 0x09 \<or> c = CHR 0x0A \<or> c = CHR 0x0D"

definition skip_ws :: "string \<Rightarrow> string" where
  "skip_ws s = dropWhile is_ws s"

definition starts_with :: "string \<Rightarrow> string \<Rightarrow> bool" where
  "starts_with p s \<longleftrightarrow> take (length p) s = p"

definition is_digit :: "char \<Rightarrow> bool" where
  "is_digit c \<longleftrightarrow> 48 \<le> (of_char c :: nat) \<and> (of_char c :: nat) \<le> 57"

definition nat_of_digits :: "string \<Rightarrow> nat" where
  "nat_of_digits ds = foldl (\<lambda>a c. 10 * a + (of_char c - 48)) 0 ds"

definition hexval :: "char \<Rightarrow> nat option" where
  "hexval c =
    (let n = (of_char c :: nat) in
     if 48 \<le> n \<and> n \<le> 57 then Some (n - 48)
     else if 97 \<le> n \<and> n \<le> 102 then Some (n - 87)
     else if 65 \<le> n \<and> n \<le> 70 then Some (n - 55)
     else None)"

definition decode_hex4 :: "char \<Rightarrow> char \<Rightarrow> char \<Rightarrow> char \<Rightarrow> nat option" where
  "decode_hex4 h1 h2 h3 h4 =
    (case (hexval h1, hexval h2, hexval h3, hexval h4) of
       (Some a, Some b, Some c, Some d) \<Rightarrow> Some (((a * 16 + b) * 16 + c) * 16 + d)
     | _ \<Rightarrow> None)"

text \<open>The character after a backslash, other than \<^verbatim>\<open>u\<close>.\<close>

definition unescape :: "char \<Rightarrow> char option" where
  "unescape e =
    (if e = CHR 0x22 then Some (CHR 0x22)
     else if e = CHR 0x5C then Some (CHR 0x5C)
     else if e = CHR ''/'' then Some (CHR ''/'')
     else if e = CHR ''b'' then Some (CHR 0x08)
     else if e = CHR ''f'' then Some (CHR 0x0C)
     else if e = CHR ''n'' then Some (CHR 0x0A)
     else if e = CHR ''r'' then Some (CHR 0x0D)
     else if e = CHR ''t'' then Some (CHR 0x09)
     else None)"

definition add_char :: "char \<Rightarrow> (string \<times> string) option \<Rightarrow> (string \<times> string) option" where
  "add_char c res = map_option (\<lambda>(t, r). (c # t, r)) res"

text \<open>
  The body of a string, from after its opening quote: the decoded string and the text that
  follows the closing quote. A raw control character is refused (strict mode).
\<close>

fun scanstring :: "string \<Rightarrow> (string \<times> string) option" where
  "scanstring [] = None"
| "scanstring (c # cs) =
    (if c = CHR 0x22 then Some ([], cs)
     else if c = CHR 0x5C then
       (case cs of
          [] \<Rightarrow> None
        | e # r \<Rightarrow>
            if e = CHR ''u'' then
              (case r of
                 h1 # h2 # h3 # h4 # r' \<Rightarrow>
                   (case decode_hex4 h1 h2 h3 h4 of
                      None \<Rightarrow> None
                    | Some n \<Rightarrow> if n < 256 then add_char (char_of n) (scanstring r') else None)
               | _ \<Rightarrow> None)
            else (case unescape e of None \<Rightarrow> None | Some ch \<Rightarrow> add_char ch (scanstring r)))
     else if (of_char c :: nat) < 32 then None
     else add_char c (scanstring cs))"

text \<open>
  What follows the integer part makes the number a float: a fraction \<^verbatim>\<open>\.\d+\<close> or an
  exponent \<^verbatim>\<open>[eE][-+]?\d+\<close>.
\<close>

definition starts_float :: "string \<Rightarrow> bool" where
  "starts_float r =
    (case r of
       c # d # r' \<Rightarrow>
         (c = CHR ''.'' \<and> is_digit d) \<or>
         ((c = CHR ''e'' \<or> c = CHR ''E'') \<and>
          (is_digit d \<or>
           ((d = CHR ''+'' \<or> d = CHR ''-'') \<and> (case r' of e # _ \<Rightarrow> is_digit e | [] \<Rightarrow> False))))
     | _ \<Rightarrow> False)"

text \<open>The number pattern \<^verbatim>\<open>-?(0|[1-9]\d*)\<close>: a leading zero stands alone.\<close>

definition scan_number :: "string \<Rightarrow> (pyval \<times> string) option" where
  "scan_number s =
    (let neg = starts_with ''-'' s;
         s1 = (if neg then drop 1 s else s)
     in case s1 of
          [] \<Rightarrow> None
        | c # r \<Rightarrow>
            if \<not> is_digit c then None
            else
              let ds = (if c = CHR ''0'' then [c] else takeWhile is_digit s1);
                  rest = drop (length ds) s1
              in if starts_float rest then None
                 else Some (PInt ((if neg then - 1 else 1) * int (nat_of_digits ds)), rest))"

text \<open>\<^verbatim>\<open>dict(pairs)\<close>: a later pair with the same key replaces the value of the earlier one.\<close>

definition dict_of_pairs :: "(string \<times> pyval) list \<Rightarrow> (pykey \<times> pyval) list" where
  "dict_of_pairs ps = foldl (\<lambda>d (k, v). AList.update (KStr k) v d) [] ps"

text \<open>
  The scanner. Its first argument bounds the number of nested calls; \<open>loads\<close> starts it with
  more than the length of the text. \<open>JSONArray\<close> starts at the first element of a non-empty
  array, \<open>JSONObject\<close> at the opening quote of a key.
\<close>

fun scan_once :: "nat \<Rightarrow> string \<Rightarrow> (pyval \<times> string) option"
  and JSONArray :: "nat \<Rightarrow> string \<Rightarrow> (pyval list \<times> string) option"
  and JSONObject :: "nat \<Rightarrow> string \<Rightarrow> ((string \<times> pyval) list \<times> string) option"
where
  "scan_once 0 s = None"
| "scan_once (Suc n) s =
    (if starts_with [CHR 0x22] s then
       map_option (\<lambda>(t, r). (PStr t, r)) (scanstring (drop 1 s))
     else if starts_with ''{'' s then
       (let r = skip_ws (drop 1 s) in
        if starts_with ''}'' r then Some (PDict [], drop 1 r)
        else map_option (\<lambda>(ps, r'). (PDict (dict_of_pairs ps), r')) (JSONObject n r))
     else if starts_with ''['' s then
       (let r = skip_ws (drop 1 s) in
        if starts_with '']'' r then Some (PList [], drop 1 r)
        else map_option (\<lambda>(vs, r'). (PList vs, r')) (JSONArray n r))
     else if starts_with ''null'' s then Some (PNone, drop 4 s)
     else if starts_with ''true'' s then Some (PBool True, drop 4 s)
     else if starts_with ''false'' s then Some (PBool False, drop 5 s)
     else scan_number s)"
| "JSONArray 0 s = None"
| "JSONArray (Suc n) s =
    (case scan_once n s of
       None \<Rightarrow> None
     | Some (v, r) \<Rightarrow>
         (let r1 = skip_ws r in
          if starts_with '']'' r1 then Some ([v], drop 1 r1)
          else if starts_with '','' r1 then
            map_option (\<lambda>(vs, r'). (v # vs, r')) (JSONArray n (skip_ws (drop 1 r1)))
          else None))"
| "JSONObject 0 s = None"
| "JSONObject (Suc n) s =
    (if \<not> starts_with [CHR 0x22] s then None
     else
       (case scanstring (drop 1 s) of
          None \<Rightarrow> None
        | Some (k, r) \<Rightarrow>
            (let r1 = skip_ws r in
             if \<not> starts_with '':'' r1 then None
             else
               (case scan_once n (skip_ws (drop 1 r1)) of
                  None \<Rightarrow> None
                | Some (v, r2) \<Rightarrow>
                    (let r3 = skip_ws r2 in
                     if starts_with ''}'' r3 then Some ([(k, v)], drop 1 r3)
                     else if starts_with '','' r3 then
                       map_option (\<lambda>(ps, r'). ((k, v) # ps, r'))
                         (JSONObject n (skip_ws (drop 1 r3)))
                     else None)))))"

definition loads :: "string \<Rightarrow> pyval option" where
  "loads s =
    (case scan_once (Suc (length s)) (skip_ws s) of
       None \<Rightarrow> None
     | Some (v, r) \<Rightarrow> if skip_ws r = [] then Some v else None)"

section \<open>The module \<^verbatim>\<open>msa_api\<close>\<close>

subsection \<open>Constants and arguments\<close>

text \<open>
  Modelled from the spec: the module \<^verbatim>\<open>msa_sdk/constants.py\<close> is not among the sources; the
  status tokens are the five of the spec's data model (\<open>wo_status\<close>: one of ENDED, FAILED,
  RUNNING, WARNING, PAUSED).
\<close>

definition ENDED :: string where "ENDED = ''ENDED''"
definition FAILED :: string where "FAILED = ''FAILED''"
definition RUNNING :: string where "RUNNING = ''RUNNING''"
definition WARNING :: string where "WARNING = ''WARNING''"
definition PAUSED :: string where "PAUSED = ''PAUSED''"

text \<open>An argument that has a default value: left out by the caller, or given.\<close>

datatype 'a arg = Omitted | Given 'a

fun arg_or :: "'a \<Rightarrow> 'a arg \<Rightarrow> 'a" where
  "arg_or d Omitted = d"
| "arg_or d (Given x) = x"

subsection \<open>State\<close>

text \<open>
  The random source of the module \<^verbatim>\<open>random\<close>: any sequence of raw draws, and how many were
  taken. \<^verbatim>\<open>randrange(stop)\<close> returns a number below \<open>stop\<close>; every call in the source has
  \<open>stop > 0\<close>.
\<close>

record rng =
  raw :: "nat \<Rightarrow> nat"
  drawn :: nat

definition randrange :: "nat \<Rightarrow> rng \<Rightarrow> nat \<times> rng" where
  "randrange stop g = (raw g (drawn g) mod stop, g\<lparr>drawn := Suc (drawn g)\<rparr>)"

text \<open>What the source reads of a response of \<^verbatim>\<open>requests\<close>: \<^verbatim>\<open>.ok\<close> and \<^verbatim>\<open>.text\<close>.\<close>

record http_response =
  ok :: bool
  text_str :: string

datatype verb = POST | GET | PUT | DELETE

text \<open>
  A call of \<^verbatim>\<open>requests.post\<close>, \<^verbatim>\<open>.get\<close>, \<^verbatim>\<open>.put\<close> or \<^verbatim>\<open>.delete\<close> with its keyword arguments;
  \<open>Omitted\<close> is a keyword the source does not pass. A timeout is a number of seconds, or
  \<open>None\<close> for no limit.
\<close>

record request =
  req_verb :: verb
  req_url :: string
  req_headers :: "(string \<times> string) list"
  req_data :: "pyval arg"
  req_params :: "pyval arg"
  req_timeout :: "nat option arg"

text \<open>The transport: it raises or returns a response.\<close>

type_synonym transport = "request \<Rightarrow> error + http_response"

text \<open>
  What is shared by the whole process: the dictionary \<^verbatim>\<open>msa_sdk.context\<close> (its string
  entries), the random source, the messages given to \<^verbatim>\<open>logger.info\<close>, standard output, and
  the requests handed to the transport, oldest first.
\<close>

record world =
  context_dict :: "string \<rightharpoonup> string"
  random :: rng
  log_sink :: "string list"
  stdout :: string
  sent :: "request list"

text \<open>
  The instance attributes of \<^verbatim>\<open>MSA_API\<close>; \<open>priv_token\<close> and \<open>priv_content\<close> are \<^verbatim>\<open>_token\<close> and
  \<^verbatim>\<open>_content\<close>.
\<close>

record MSA_API =
  url :: string
  priv_token :: string
  path :: string
  response :: "http_response option"
  log_response :: bool
  priv_content :: string
  action :: pyval

definition host_port :: "string \<times> string" where
  "host_port = (''localhost'', ''8480'')"

text \<open>\<^verbatim>\<open>__init__\<close>; \<^verbatim>\<open>self.action\<close> starts as the class object.\<close>

definition init :: "world \<Rightarrow> error + MSA_API" where
  "init w =
    (case context_dict w ''TOKEN'' of
       None \<Rightarrow> Inl KeyError
     | Some t \<Rightarrow>
         Inr \<lparr>url = ''http://'' @ fst host_port @ '':'' @ snd host_port @ ''/ubi-api-rest'',
              priv_token = t, path = [], response = None, log_response = True,
              priv_content = [], action = PObj ''MSA_API''\<rparr>)"

subsection \<open>\<^verbatim>\<open>process_content\<close>, \<^verbatim>\<open>task_error\<close>, \<^verbatim>\<open>task_success\<close>\<close>

fun contains_str :: "string \<Rightarrow> string \<Rightarrow> bool" where
  "contains_str p [] = (p = [])"
| "contains_str p (c # s) = (starts_with p (c # s) \<or> contains_str p s)"

text \<open>\<^verbatim>\<open>k in x\<close> for a string \<open>k\<close>.\<close>

fun py_in :: "string \<Rightarrow> pyval \<Rightarrow> error + bool" where
  "py_in k (PDict kvs) = Inr (KStr k \<in> fst ` set kvs)"
| "py_in k (PList xs) = Inr (PStr k \<in> set xs)"
| "py_in k (PTuple xs) = Inr (PStr k \<in> set xs)"
| "py_in k (PStr s) = Inr (contains_str k s)"
| "py_in k PNone = Inl TypeError"
| "py_in k (PBool b) = Inl TypeError"
| "py_in k (PInt i) = Inl TypeError"
| "py_in k (PObj n) = Inl TypeError"

text \<open>\<^verbatim>\<open>del x[k]\<close> for a string \<open>k\<close> that is in \<open>x\<close>.\<close>

fun py_del :: "string \<Rightarrow> pyval \<Rightarrow> error + pyval" where
  "py_del k (PDict kvs) = Inr (PDict (AList.delete (KStr k) kvs))"
| "py_del k x = Inl TypeError"

text \<open>\<^verbatim>\<open>copy.deepcopy\<close>: a value of its own, equal to the original.\<close>

definition deepcopy :: "pyval \<Rightarrow> pyval" where
  "deepcopy x = x"

text \<open>The branch \<^verbatim>\<open>if log_response:\<close> of \<^verbatim>\<open>process_content\<close>.\<close>

definition log_without_token :: "pyval \<Rightarrow> world \<Rightarrow> error + world" where
  "log_without_token new_params w =
    (let woToken = deepcopy new_params in
     case py_in ''TOKEN'' woToken of
       Inl e \<Rightarrow> Inl e
     | Inr has \<Rightarrow>
         (case (if has then py_del ''TOKEN'' woToken else Inr woToken) of
            Inl e \<Rightarrow> Inl e
          | Inr woToken' \<Rightarrow>
              (case dumps_indent woToken' 0 of
                 None \<Rightarrow> Inl TypeError
               | Some pretty_json \<Rightarrow> Inr (w\<lparr>log_sink := log_sink w @ [pretty_json]\<rparr>))))"

definition process_content ::
  "pyval \<Rightarrow> pyval \<Rightarrow> pyval \<Rightarrow> bool arg \<Rightarrow> world \<Rightarrow> (error + string) \<times> world" where
  "process_content status comment new_params log_resp w =
    (let resp = PDict [(KStr ''wo_status'', status), (KStr ''wo_comment'', comment),
                       (KStr ''wo_newparams'', new_params)]
     in case (if arg_or False log_resp then log_without_token new_params w else Inr w) of
          Inl e \<Rightarrow> (Inl e, w)
        | Inr w' \<Rightarrow>
            (case dumps resp of
               None \<Rightarrow> (Inl TypeError, w')
             | Some json_response \<Rightarrow> (Inr json_response, w')))"

definition print :: "string \<Rightarrow> world \<Rightarrow> world" where
  "print s w = w\<lparr>stdout := stdout w @ s @ [CHR 0x0A]\<rparr>"

text \<open>
  Neither of the two returns: \<^verbatim>\<open>sys.exit\<close> raises \<^verbatim>\<open>SystemExit\<close> with the exit code of the
  process, unless \<^verbatim>\<open>process_content\<close> has raised before.
\<close>

definition task_error :: "pyval \<Rightarrow> pyval \<Rightarrow> bool arg \<Rightarrow> world \<Rightarrow> error \<times> world" where
  "task_error comment context log_resp w =
    (case process_content (PStr FAILED) comment context (Given (arg_or True log_resp)) w of
       (Inl e, w') \<Rightarrow> (e, w')
     | (Inr t, w') \<Rightarrow> (SystemExit 1, print t w'))"

definition task_success :: "pyval \<Rightarrow> pyval \<Rightarrow> bool arg \<Rightarrow> world \<Rightarrow> error \<times> world" where
  "task_success comment context log_resp w =
    (case process_content (PStr ENDED) comment context (Given (arg_or True log_resp)) w of
       (Inl e, w') \<Rightarrow> (e, w')
     | (Inr t, w') \<Rightarrow> (SystemExit 0, print t w'))"

subsection \<open>The property \<^verbatim>\<open>content\<close> and \<^verbatim>\<open>check_response\<close>\<close>

definition content :: "MSA_API \<Rightarrow> string" where
  "content self = (if priv_content self = [] then ''{}'' else priv_content self)"

text \<open>\<^verbatim>\<open>x[k]\<close> for a string \<open>k\<close>.\<close>

fun py_getitem :: "pyval \<Rightarrow> string \<Rightarrow> error + pyval" where
  "py_getitem (PDict kvs) k =
    (case map_of kvs (KStr k) of None \<Rightarrow> Inl KeyError | Some v \<Rightarrow> Inr v)"
| "py_getitem x k = Inl TypeError"

definition check_response ::
  "MSA_API \<Rightarrow> world \<Rightarrow> (error + unit) \<times> MSA_API \<times> world" where
  "check_response self w =
    (case response self of
       None \<Rightarrow> (Inl AttributeError, self, w)
     | Some r \<Rightarrow>
         if ok r then (Inr (), self, w)
         else
           (case loads (text_str r) of
              None \<Rightarrow> (Inl JSONDecodeError, self, w)
            | Some json_response \<Rightarrow>
                (case py_getitem json_response ''message'' of
                   Inl e \<Rightarrow> (Inl e, self, w)
                 | Inr m \<Rightarrow>
                     (case process_content (PStr FAILED) (action self) m Omitted w of
                        (Inl e, w') \<Rightarrow> (Inl e, self, w')
                      | (Inr t, w') \<Rightarrow> (Inr (), self\<lparr>priv_content := t\<rparr>, w')))))"

subsection \<open>Trace headers\<close>

definition create_trace_id :: "rng \<Rightarrow> (string \<times> string) \<times> rng" where
  "create_trace_id g =
    (let (a, g1) = randrange (16 ^ 32) g;
         trace_id = format_0x 32 a;
         (b, g2) = randrange (6 ^ 23) g1;
         span_id = format_0x 16 b
     in ((trace_id, span_id), g2))"

definition traceparent :: "string \<Rightarrow> string \<Rightarrow> string" where
  "traceparent t s = ''00-'' @ t @ ''-'' @ s @ ''-01''"

text \<open>The dictionary \<open>headers\<close> is changed in place; here the changed one is returned.\<close>

definition add_trace_headers ::
  "(string \<times> string) list \<Rightarrow> world \<Rightarrow> (error + (string \<times> string) list) \<times> world" where
  "add_trace_headers headers w =
    (let w1 =
       (if context_dict w ''TRACEID'' = None then
          (let ((t, s), g) = create_trace_id (random w)
           in w\<lparr>context_dict := (context_dict w)(''TRACEID'' \<mapsto> t, ''SPANID'' \<mapsto> s),
                random := g,
                log_sink := log_sink w @ [''Creating traceId: '' @ traceparent t s]\<rparr>)
        else w)
     in case context_dict w1 ''TRACEID'' of
          None \<Rightarrow> (Inl KeyError, w1)
        | Some t \<Rightarrow>
            (case context_dict w1 ''SPANID'' of
               None \<Rightarrow> (Inl KeyError, w1)
             | Some s \<Rightarrow>
                 (Inr (AList.update ''X-B3-SpanId'' s
                        (AList.update ''X-B3-TraceId'' t
                          (AList.update ''traceparent'' (traceparent t s) headers))),
                  w1)))"

subsection \<open>The four verbs\<close>

text \<open>
  \<^verbatim>\<open>_call_post\<close>, \<^verbatim>\<open>_call_get\<close>, \<^verbatim>\<open>_call_put\<close> and \<^verbatim>\<open>_call_delete\<close>. Each takes the transport
  that answers it and records the request it hands over in \<open>sent\<close>.
\<close>

definition is_dict :: "pyval \<Rightarrow> bool" where
  "is_dict x = (case x of PDict kvs \<Rightarrow> True | _ \<Rightarrow> False)"

definition bearer :: "MSA_API \<Rightarrow> string \<times> string" where
  "bearer self = (''Authorization'', ''Bearer '' @ priv_token self)"

text \<open>
  The tail the four share: the call of \<^verbatim>\<open>requests\<close>, then \<^verbatim>\<open>self.response\<close>,
  \<^verbatim>\<open>self._content\<close> and \<^verbatim>\<open>check_response\<close>.
\<close>

definition perform ::
  "MSA_API \<Rightarrow> request \<Rightarrow> transport \<Rightarrow> world \<Rightarrow> (error + unit) \<times> MSA_API \<times> world" where
  "perform self rq net w =
    (let w1 = w\<lparr>sent := sent w @ [rq]\<rparr>
     in case net rq of
          Inl e \<Rightarrow> (Inl e, self, w1)
        | Inr r \<Rightarrow> check_response (self\<lparr>response := Some r, priv_content := text_str r\<rparr>) w1)"

definition call_post ::
  "MSA_API \<Rightarrow> pyval arg \<Rightarrow> nat option arg \<Rightarrow> transport \<Rightarrow> world
    \<Rightarrow> (error + unit) \<times> MSA_API \<times> world" where
  "call_post self data timeout net w =
    (let headers = [(''Content-Type'', ''application/json''), (''Accept'', ''application/json''),
                    bearer self]
     in case add_trace_headers headers w of
          (Inl e, w1) \<Rightarrow> (Inl e, self, w1)
        | (Inr headers1, w1) \<Rightarrow>
            (let data0 = arg_or PNone data;
                 data1 = (if data0 = PNone then PDict [] else data0)
             in if \<not> is_dict data1 then (Inl TypeError, self, w1)
                else
                  (case dumps data1 of
                     None \<Rightarrow> (Inl TypeError, self, w1)
                   | Some body \<Rightarrow>
                       perform self
                         \<lparr>req_verb = POST, req_url = url self @ path self,
                          req_headers = headers1, req_data = Given (PStr body),
                          req_params = Omitted,
                          req_timeout = Given (arg_or (Some 60) timeout)\<rparr> net w1)))"

definition call_get ::
  "MSA_API \<Rightarrow> nat option arg \<Rightarrow> pyval arg \<Rightarrow> transport \<Rightarrow> world
    \<Rightarrow> (error + unit) \<times> MSA_API \<times> world" where
  "call_get self timeout params net w =
    (let headers = [(''Accept'', ''application/json''), bearer self]
     in case add_trace_headers headers w of
          (Inl e, w1) \<Rightarrow> (Inl e, self, w1)
        | (Inr headers1, w1) \<Rightarrow>
            perform self
              \<lparr>req_verb = GET, req_url = url self @ path self, req_headers = headers1,
               req_data = Omitted, req_params = Given (arg_or (PDict []) params),
               req_timeout = Given (arg_or (Some 60) timeout)\<rparr> net w1)"

definition call_put ::
  "MSA_API \<Rightarrow> pyval arg \<Rightarrow> transport \<Rightarrow> world \<Rightarrow> (error + unit) \<times> MSA_API \<times> world" where
  "call_put self data net w =
    (let headers = [(''Accept'', ''application/json''), (''Content-Type'', ''application/json''),
                    bearer self]
     in case add_trace_headers headers w of
          (Inl e, w1) \<Rightarrow> (Inl e, self, w1)
        | (Inr headers1, w1) \<Rightarrow>
            perform self
              \<lparr>req_verb = PUT, req_url = url self @ path self, req_headers = headers1,
               req_data = Given (arg_or PNone data), req_params = Omitted,
               req_timeout = Omitted\<rparr> net w1)"

definition call_delete ::
  "MSA_API \<Rightarrow> transport \<Rightarrow> world \<Rightarrow> (error + unit) \<times> MSA_API \<times> world" where
  "call_delete self net w =
    (let headers = [(''Accept'', ''application/json''), bearer self]
     in case add_trace_headers headers w of
          (Inl e, w1) \<Rightarrow> (Inl e, self, w1)
        | (Inr headers1, w1) \<Rightarrow>
            perform self
              \<lparr>req_verb = DELETE, req_url = url self @ path self, req_headers = headers1,
               req_data = Omitted, req_params = Omitted, req_timeout = Omitted\<rparr> net w1)"

subsection \<open>\<^verbatim>\<open>process_content\<close> on the caller's object\<close>

text \<open>
  \<^verbatim>\<open>process_content\<close> once more, line by line, with \<^verbatim>\<open>new_params\<close> as what Python passes: a
  reference to an object of the caller. The objects are the entries of a heap and a
  reference is an index into it; \<^verbatim>\<open>copy.deepcopy\<close> makes a new object, \<^verbatim>\<open>del\<close> changes the
  object it is applied to, and the dictionary \<^verbatim>\<open>response\<close> refers to \<^verbatim>\<open>new_params\<close>, which
  \<^verbatim>\<open>json.dumps\<close> reads at the end. The heap is returned as the call leaves it.
\<close>

type_synonym heap = "pyval list"

definition process_content_heap ::
  "pyval \<Rightarrow> pyval \<Rightarrow> nat \<Rightarrow> bool arg \<Rightarrow> heap \<Rightarrow> world \<Rightarrow> (error + string) \<times> heap \<times> world" where
  "process_content_heap status comment new_params log_resp h w =
    (let logged =
       (if arg_or False log_resp then
          (let woToken = length h;
               h1 = h @ [deepcopy (h ! new_params)]
           in case py_in ''TOKEN'' (h1 ! woToken) of
                Inl e \<Rightarrow> (Inl e, h1, w)
              | Inr has \<Rightarrow>
                  (case (if has then py_del ''TOKEN'' (h1 ! woToken) else Inr (h1 ! woToken)) of
                     Inl e \<Rightarrow> (Inl e, h1, w)
                   | Inr x \<Rightarrow>
                       (let h2 = h1[woToken := x]
                        in case dumps_indent (h2 ! woToken) 0 of
                             None \<Rightarrow> (Inl TypeError, h2, w)
                           | Some pretty_json \<Rightarrow>
                               (Inr (), h2, w\<lparr>log_sink := log_sink w @ [pretty_json]\<rparr>))))
        else (Inr (), h, w))
     in case logged of
          (Inl e, h', w') \<Rightarrow> (Inl e, h', w')
        | (Inr u, h', w') \<Rightarrow>
            (case dumps (PDict [(KStr ''wo_status'', status), (KStr ''wo_comment'', comment),
                                (KStr ''wo_newparams'', h' ! new_params)]) of
               None \<Rightarrow> (Inl TypeError, h', w')
             | Some json_response \<Rightarrow> (Inr json_response, h', w')))"

subsection \<open>Runs of calls\<close>

datatype call =
    Post "pyval arg" "nat option arg"
  | Get "nat option arg" "pyval arg"
  | Put "pyval arg"
  | Delete

fun do_call ::
  "call \<Rightarrow> MSA_API \<Rightarrow> transport \<Rightarrow> world \<Rightarrow> (error + unit) \<times> MSA_API \<times> world" where
  "do_call (Post data timeout) self net w = call_post self data timeout net w"
| "do_call (Get timeout params) self net w = call_get self timeout params net w"
| "do_call (Put data) self net w = call_put self data net w"
| "do_call Delete self net w = call_delete self net w"

text \<open>
  What one process does to the shared state: any sequence of calls, each on a client in
  any state and answered by any transport, the next call made whether or not the one before
  has raised.
\<close>

fun run :: "(call \<times> MSA_API \<times> transport) list \<Rightarrow> world \<Rightarrow> world" where
  "run [] w = w"
| "run ((c, self, net) # cs) w = run cs (snd (snd (do_call c self net w)))"

text \<open>The requests handed to the transport between two states of the world.\<close>

definition new_requests :: "world \<Rightarrow> world \<Rightarrow> request list" where
  "new_requests w w' = drop (length (sent w)) (sent w')"

definition header :: "string \<Rightarrow> request \<Rightarrow> string option" where
  "header k rq = map_of (req_headers rq) k"

subsection \<open>What a round trip through JSON makes of a value\<close>

text \<open>
  A tuple comes back as a list, a key that is not a string as its text; of two items whose
  keys have the same text the later gives the value.
\<close>

primrec decoded :: "pyval \<Rightarrow> pyval"
  and decoded_elems :: "pyval list \<Rightarrow> pyval list"
  and decoded_items :: "(pykey \<times> pyval) list \<Rightarrow> (string \<times> pyval) list"
  and decoded_item :: "pykey \<times> pyval \<Rightarrow> string \<times> pyval"
where
  "decoded PNone = PNone"
| "decoded (PBool b) = PBool b"
| "decoded (PInt i) = PInt i"
| "decoded (PStr s) = PStr s"
| "decoded (PList xs) = PList (decoded_elems xs)"
| "decoded (PTuple xs) = PList (decoded_elems xs)"
| "decoded (PDict kvs) = PDict (dict_of_pairs (decoded_items kvs))"
| "decoded (PObj n) = PObj n"
| "decoded_elems [] = []"
| "decoded_elems (x # xs) = decoded x # decoded_elems xs"
| "decoded_items [] = []"
| "decoded_items (kv # kvs) = decoded_item kv # decoded_items kvs"
| "decoded_item (k, v) = (key_str k, decoded v)"

text \<open>
  The values that JSON has as they are: no tuple and no other object, every key a string,
  no key twice in a dictionary.
\<close>

definition is_KStr :: "pykey \<Rightarrow> bool" where
  "is_KStr k = (case k of KStr s \<Rightarrow> True | _ \<Rightarrow> False)"

primrec json_native :: "pyval \<Rightarrow> bool"
  and json_native_elems :: "pyval list \<Rightarrow> bool"
  and json_native_items :: "(pykey \<times> pyval) list \<Rightarrow> bool"
  and json_native_item :: "pykey \<times> pyval \<Rightarrow> bool"
where
  "json_native PNone = True"
| "json_native (PBool b) = True"
| "json_native (PInt i) = True"
| "json_native (PStr s) = True"
| "json_native (PList xs) = json_native_elems xs"
| "json_native (PTuple xs) = False"
| "json_native (PDict kvs) = (distinct (map fst kvs) \<and> json_native_items kvs)"
| "json_native (PObj n) = False"
| "json_native_elems [] = True"
| "json_native_elems (x # xs) = (json_native x \<and> json_native_elems xs)"
| "json_native_items [] = True"
| "json_native_items (kv # kvs) = (json_native_item kv \<and> json_native_items kvs)"
| "json_native_item (k, v) = (is_KStr k \<and> json_native v)"

text \<open>The envelope as a value.\<close>

definition envelope :: "string \<Rightarrow> pyval \<Rightarrow> pyval \<Rightarrow> pyval" where
  "envelope status comment new_params =
    PDict [(KStr ''wo_status'', PStr status), (KStr ''wo_comment'', comment),
           (KStr ''wo_newparams'', new_params)]"

subsection \<open>A sample process\<close>

definition rng0 :: rng where
  "rng0 = \<lparr>raw = (\<lambda>i. 1000 * i + 255), drawn = 0\<rparr>"

definition world0 :: world where
  "world0 = \<lparr>context_dict = [''TOKEN'' \<mapsto> ''abc''], random = rng0, log_sink = [],
             stdout = [], sent = []\<rparr>"

definition self0 :: MSA_API where
  "self0 = \<lparr>url = ''http://localhost:8480/ubi-api-rest'', priv_token = ''abc'',
            path = ''/ordercommand/objects/42'', response = None, log_response = True,
            priv_content = [], action = PStr ''Command execute''\<rparr>"

definition answer :: "bool \<Rightarrow> string \<Rightarrow> transport" where
  "answer b t = (\<lambda>rq. Inr \<lparr>ok = b, text_str = t\<rparr>)"

text \<open>The trace pair that the first call of the sample process creates, and the world after.\<close>

definition trace0 :: string where
  "trace0 = ''000000000000000000000000000000ff''"

definition span0 :: string where
  "span0 = ''00000000000004e7''"

definition world1 :: world where
  "world1 = world0\<lparr>
     context_dict := [''TOKEN'' \<mapsto> ''abc'', ''TRACEID'' \<mapsto> trace0, ''SPANID'' \<mapsto> span0],
     random := rng0\<lparr>drawn := 2\<rparr>,
     log_sink := [''Creating traceId: '' @ traceparent trace0 span0]\<rparr>"

subsection \<open>Notions for the proofs\<close>

text \<open>A call that has raised \<^verbatim>\<open>TypeError\<close> or \<^verbatim>\<open>KeyError\<close> and left the client as it was.\<close>

definition stopped :: "(error + unit) \<times> MSA_API \<times> world \<Rightarrow> MSA_API \<Rightarrow> world \<Rightarrow> bool" where
  "stopped out self w1 \<longleftrightarrow>
    (\<exists>e. (e = TypeError \<or> e = KeyError) \<and> out = (Inl e, self, w1))"


text \<open>
  The three trace headers of a request, and the three that the trace pair of the context
  gives.
\<close>

definition trace_headers :: "request \<Rightarrow> string option \<times> string option \<times> string option" where
  "trace_headers rq =
    (header ''traceparent'' rq, header ''X-B3-TraceId'' rq, header ''X-B3-SpanId'' rq)"

definition trace_of_context ::
  "world \<Rightarrow> (string option \<times> string option \<times> string option) option" where
  "trace_of_context w =
    (case (context_dict w ''TRACEID'', context_dict w ''SPANID'') of
       (Some t, Some s) \<Rightarrow> Some (Some (traceparent t s), Some t, Some s)
     | _ \<Rightarrow> None)"

definition all_carry_context :: "world \<Rightarrow> bool" where
  "all_carry_context w \<longleftrightarrow> (\<forall>rq \<in> set (sent w). Some (trace_headers rq) = trace_of_context w)"

text \<open>What may follow a value in the text of the encoder: nothing, or one of \<^verbatim>\<open>, ] }\<close>.\<close>

definition delim :: "string \<Rightarrow> bool" where
  "delim r \<longleftrightarrow> r = [] \<or> hd r = CHR '','' \<or> hd r = CHR '']'' \<or> hd r = CHR ''}''"

text \<open>The characters with which the text of a value can start.\<close>

definition value_start :: "char \<Rightarrow> bool" where
  "value_start c \<longleftrightarrow> c = CHR 0x22 \<or> c \<in> set ''ntf-0123456789[{''"

text \<open>
  The induction statements of the round trip: the scanner, given enough calls, reads the
  text of a value, of the elements of a list and of the items of a dictionary back, and
  leaves what follows.
\<close>

definition rt_val :: "pyval \<Rightarrow> bool" where
  "rt_val v \<longleftrightarrow>
    (\<forall>t n r. dumps v = Some t \<longrightarrow> length t \<le> n \<longrightarrow> delim r \<longrightarrow>
       scan_once n (t @ r) = Some (decoded v, r))"

definition rt_elems :: "pyval list \<Rightarrow> bool" where
  "rt_elems xs \<longleftrightarrow>
    (\<forall>ts n r. dumps_elems xs = Some ts \<longrightarrow> xs \<noteq> [] \<longrightarrow> length (join '', '' ts) < n \<longrightarrow>
       JSONArray n (join '', '' ts @ CHR '']'' # r) = Some (decoded_elems xs, r))"

definition rt_items :: "(pykey \<times> pyval) list \<Rightarrow> bool" where
  "rt_items kvs \<longleftrightarrow>
    (\<forall>ts n r. dumps_items kvs = Some ts \<longrightarrow> kvs \<noteq> [] \<longrightarrow> length (join '', '' ts) < n \<longrightarrow>
       JSONObject n (join '', '' ts @ CHR ''}'' # r) = Some (decoded_items kvs, r))"

text \<open>The printable ASCII characters, from the space to the tilde.\<close>

definition printable :: "char \<Rightarrow> bool" where
  "printable c \<longleftrightarrow> 32 \<le> (of_char c :: nat) \<and> (of_char c :: nat) \<le> 126"

text \<open>
  The text of an envelope, from the status and the texts of the comment and of the new
  parameters.
\<close>

definition envelope_text :: "string \<Rightarrow> string \<Rightarrow> string \<Rightarrow> string" where
  \<open>envelope_text status comment_text params_text =
    ''{"wo_status": '' @ encode_basestring_ascii status @ '', "wo_comment": '' @ comment_text
      @ '', "wo_newparams": '' @ params_text @ ''}''\<close>

section \<open>Evaluation on numerals\<close>

lemma hex_numeral:
  "hex (numeral k) = (if (numeral k :: nat) < 16 then [hexdigit (numeral k)]
     else hex (numeral k div 16) @ [hexdigit (numeral k mod 16)])"
  by (rule hex.simps)

lemma hex_small: "hex 0 = ''0''" "hex (Suc 0) = ''1''"
  by (simp_all add: hex.simps hexdigit_def)

lemma str_nat_numeral:
  "str_nat (numeral k) = (if (numeral k :: nat) < 10 then [decdigit (numeral k)]
     else str_nat (numeral k div 10) @ [decdigit (numeral k mod 10)])"
  by (rule str_nat.simps)

lemma str_nat_small: "str_nat 0 = ''0''" "str_nat (Suc 0) = ''1''"
  by (simp_all add: str_nat.simps decdigit_def)

lemma replicate_numeral: "replicate (numeral k) x = x # replicate (numeral k - 1) x"
  by (simp add: numeral_eq_Suc)

section \<open>Trace and span identifiers\<close>

lemma hexdigit_in: "d < 16 \<Longrightarrow> hexdigit d \<in> set ''0123456789abcdef''"
proof -
  have "\<forall>d \<in> set [0..<16]. hexdigit d \<in> set ''0123456789abcdef''" by code_simp
  moreover assume "d < 16"
  ultimately show ?thesis by simp
qed

lemma hex_chars: "set (hex n) \<subseteq> set ''0123456789abcdef''"
proof (induction n rule: hex.induct)
  case (1 n)
  show ?case
  proof (cases "n < 16")
    case True
    then show ?thesis using hexdigit_in [of n] by (subst hex.simps) simp
  next
    case False
    have "n mod 16 < 16" by simp
    then have "hexdigit (n mod 16) \<in> set ''0123456789abcdef''" by (rule hexdigit_in)
    with False 1 show ?thesis by (subst hex.simps) simp
  qed
qed

lemma hex_length: "0 < k \<Longrightarrow> n < 16 ^ k \<Longrightarrow> length (hex n) \<le> k"
proof (induction n arbitrary: k rule: hex.induct)
  case (1 n)
  show ?case
  proof (cases "n < 16")
    case True
    with 1 show ?thesis by (subst hex.simps) simp
  next
    case False
    with 1(2,3) have k: "1 < k" by (cases "k = 1") auto
    then obtain j where j: "k = Suc j" "0 < j" by (cases k) auto
    from 1(3) j have "n div 16 < 16 ^ j" by (simp add: less_mult_imp_div_less mult.commute)
    with 1(1) [OF False j(2)] have "length (hex (n div 16)) \<le> j" by simp
    with False j show ?thesis by (subst hex.simps) simp
  qed
qed

lemma format_0x_length: "0 < k \<Longrightarrow> n < 16 ^ k \<Longrightarrow> length (format_0x k n) = k"
  using hex_length [of k n] by (simp add: format_0x_def)

lemma format_0x_chars: "set (format_0x k n) \<subseteq> set ''0123456789abcdef''"
  using hex_chars [of n] by (auto simp: format_0x_def)

text \<open>
  C5. Whatever the random source holds, the trace id that \<^verbatim>\<open>create_trace_id\<close> returns is 32
  characters long, the span id 16, and all of them are among \<^verbatim>\<open>0123456789abcdef\<close>.
\<close>

theorem create_trace_id_format:
  "length (fst (fst (create_trace_id g))) = 32
   \<and> length (snd (fst (create_trace_id g))) = 16
   \<and> set (fst (fst (create_trace_id g))) \<subseteq> set ''0123456789abcdef''
   \<and> set (snd (fst (create_trace_id g))) \<subseteq> set ''0123456789abcdef''"
proof -
  let ?a = "raw g (drawn g) mod 16 ^ 32"
  let ?b = "raw g (Suc (drawn g)) mod 6 ^ 23"
  have t: "fst (fst (create_trace_id g)) = format_0x 32 ?a"
    and s: "snd (fst (create_trace_id g)) = format_0x 16 ?b"
    by (simp_all add: create_trace_id_def randrange_def Let_def)
  have a: "?a < 16 ^ 32" by simp
  have "?b < 6 ^ 23" by simp
  also have "(6::nat) ^ 23 < 16 ^ 16" by simp
  finally have b: "?b < 16 ^ 16" .
  from a have "length (format_0x 32 ?a) = 32" by (intro format_0x_length) simp_all
  moreover from b have "length (format_0x 16 ?b) = 16" by (intro format_0x_length) simp_all
  ultimately show ?thesis unfolding t s using format_0x_chars by blast
qed

section \<open>The property \<^verbatim>\<open>content\<close>\<close>

lemma loads_empty_object: "loads ''{}'' = Some (PDict [])"
  by code_simp

text \<open>
  C10. With no text stored, or an empty one, \<^verbatim>\<open>content\<close> is the string \<^verbatim>\<open>{}\<close>, which parses
  as the empty object; otherwise it is the stored text. So it is never empty, and it is
  \<^verbatim>\<open>{}\<close> on a client fresh from \<^verbatim>\<open>__init__\<close>.
\<close>

theorem content_default:
  "(priv_content self = [] \<longrightarrow>
      content self = ''{}'' \<and> loads (content self) = Some (PDict []))
   \<and> (priv_content self \<noteq> [] \<longrightarrow> content self = priv_content self)
   \<and> content self \<noteq> []
   \<and> (init w = Inr self1 \<longrightarrow> content self1 = ''{}'')"
  by (auto simp: content_def init_def loads_empty_object split: option.splits)

theorem content_default_witness:
  "priv_content self0 = [] \<and> content self0 = ''{}''
   \<and> loads (content self0) = Some (PDict [])
   \<and> priv_content (self0\<lparr>priv_content := ''[1]''\<rparr>) \<noteq> []
   \<and> content (self0\<lparr>priv_content := ''[1]''\<rparr>) = ''[1]''
   \<and> init world0 = Inr (self0\<lparr>path := [], action := PObj ''MSA_API''\<rparr>)
   \<and> content (self0\<lparr>path := [], action := PObj ''MSA_API''\<rparr>) = ''{}''"
  using content_default [of self0 world0 "self0\<lparr>path := [], action := PObj ''MSA_API''\<rparr>"]
    content_default [of "self0\<lparr>priv_content := ''[1]''\<rparr>" world0 self0]
  by (simp add: self0_def world0_def init_def host_port_def loads_empty_object)

section \<open>What a call does to the shared state\<close>

lemma process_content_no_log:
  "snd (process_content status comment new_params Omitted w) = w"
  by (simp add: process_content_def split: option.splits)

lemma check_response_world: "snd (snd (check_response self w)) = w"
proof -
  have "snd (snd (case process_content status c m Omitted w of
      (Inl e, w') \<Rightarrow> (Inl e, self, w')
    | (Inr t, w') \<Rightarrow> (Inr (), self\<lparr>priv_content := t\<rparr>, w'))) = w" for status c m
    using process_content_no_log [of status c m w]
    by (cases "process_content status c m Omitted w") (auto split: sum.splits)
  then show ?thesis
    by (simp add: check_response_def split: option.splits sum.splits)
qed

lemma check_response_ok:
  "response self = Some r \<Longrightarrow> ok r \<Longrightarrow> check_response self w = (Inr (), self, w)"
  by (simp add: check_response_def)

lemma perform_world:
  "snd (snd (perform self rq net w)) = w\<lparr>sent := sent w @ [rq]\<rparr>"
  by (simp add: perform_def Let_def check_response_world split: sum.splits)

lemma perform_ok:
  "net rq = Inr r \<Longrightarrow> ok r \<Longrightarrow>
   perform self rq net w =
     (Inr (), self\<lparr>response := Some r, priv_content := text_str r\<rparr>, w\<lparr>sent := sent w @ [rq]\<rparr>)"
  by (simp add: perform_def Let_def check_response_ok)

text \<open>
  Every call first attaches the trace headers and then either raises, the client and the
  list of requests as they were, or hands exactly one request with these headers to the
  transport and goes on as \<open>perform\<close> does.
\<close>

lemma call_post_cases:
  assumes "add_trace_headers
    [(''Content-Type'', ''application/json''), (''Accept'', ''application/json''), bearer self] w
      = (hres, w1)"
  shows "stopped (call_post self data timeout net w) self w1
    \<or> (\<exists>rq. hres = Inr (req_headers rq) \<and> req_verb rq = POST
          \<and> req_timeout rq = Given (arg_or (Some 60) timeout)
          \<and> call_post self data timeout net w = perform self rq net w1)"
proof (cases hres)
  case (Inl e)
  with assms have "e = KeyError"
    by (auto simp: add_trace_headers_def Let_def split: option.splits if_splits prod.splits)
  with Inl assms show ?thesis by (simp add: call_post_def stopped_def)
next
  case (Inr hs)
  show ?thesis
  proof (cases "is_dict (if arg_or PNone data = PNone then PDict [] else arg_or PNone data)")
    case False
    with Inr assms show ?thesis by (simp add: call_post_def stopped_def Let_def)
  next
    case True
    show ?thesis
    proof (cases "dumps (if arg_or PNone data = PNone then PDict [] else arg_or PNone data)")
      case None
      with True Inr assms show ?thesis by (simp add: call_post_def stopped_def Let_def)
    next
      case (Some body)
      let ?rq = "\<lparr>req_verb = POST, req_url = url self @ path self, req_headers = hs,
        req_data = Given (PStr body), req_params = Omitted,
        req_timeout = Given (arg_or (Some 60) timeout)\<rparr>"
      from Some True Inr assms
      have "call_post self data timeout net w = perform self ?rq net w1"
        by (simp add: call_post_def Let_def)
      with Inr show ?thesis by (intro disjI2 exI [of _ ?rq]) simp
    qed
  qed
qed

lemma call_get_cases:
  assumes "add_trace_headers [(''Accept'', ''application/json''), bearer self] w = (hres, w1)"
  shows "stopped (call_get self timeout params net w) self w1
    \<or> (\<exists>rq. hres = Inr (req_headers rq) \<and> req_verb rq = GET
          \<and> req_timeout rq = Given (arg_or (Some 60) timeout)
          \<and> call_get self timeout params net w = perform self rq net w1)"
proof (cases hres)
  case (Inl e)
  with assms have "e = KeyError"
    by (auto simp: add_trace_headers_def Let_def split: option.splits if_splits prod.splits)
  with Inl assms show ?thesis by (simp add: call_get_def stopped_def)
next
  case (Inr hs)
  let ?rq = "\<lparr>req_verb = GET, req_url = url self @ path self, req_headers = hs,
    req_data = Omitted, req_params = Given (arg_or (PDict []) params),
    req_timeout = Given (arg_or (Some 60) timeout)\<rparr>"
  from Inr assms have "call_get self timeout params net w = perform self ?rq net w1"
    by (simp add: call_get_def)
  with Inr show ?thesis by (intro disjI2 exI [of _ ?rq]) simp
qed

lemma call_put_cases:
  assumes "add_trace_headers
    [(''Accept'', ''application/json''), (''Content-Type'', ''application/json''), bearer self] w
      = (hres, w1)"
  shows "stopped (call_put self data net w) self w1
    \<or> (\<exists>rq. hres = Inr (req_headers rq) \<and> req_verb rq = PUT \<and> req_timeout rq = Omitted
          \<and> call_put self data net w = perform self rq net w1)"
proof (cases hres)
  case (Inl e)
  with assms have "e = KeyError"
    by (auto simp: add_trace_headers_def Let_def split: option.splits if_splits prod.splits)
  with Inl assms show ?thesis by (simp add: call_put_def stopped_def)
next
  case (Inr hs)
  let ?rq = "\<lparr>req_verb = PUT, req_url = url self @ path self, req_headers = hs,
    req_data = Given (arg_or PNone data), req_params = Omitted, req_timeout = Omitted\<rparr>"
  from Inr assms have "call_put self data net w = perform self ?rq net w1"
    by (simp add: call_put_def)
  with Inr show ?thesis by (intro disjI2 exI [of _ ?rq]) simp
qed

lemma call_delete_cases:
  assumes "add_trace_headers [(''Accept'', ''application/json''), bearer self] w = (hres, w1)"
  shows "stopped (call_delete self net w) self w1
    \<or> (\<exists>rq. hres = Inr (req_headers rq) \<and> req_verb rq = DELETE \<and> req_timeout rq = Omitted
          \<and> call_delete self net w = perform self rq net w1)"
proof (cases hres)
  case (Inl e)
  with assms have "e = KeyError"
    by (auto simp: add_trace_headers_def Let_def split: option.splits if_splits prod.splits)
  with Inl assms show ?thesis by (simp add: call_delete_def stopped_def)
next
  case (Inr hs)
  let ?rq = "\<lparr>req_verb = DELETE, req_url = url self @ path self, req_headers = hs,
    req_data = Omitted, req_params = Omitted, req_timeout = Omitted\<rparr>"
  from Inr assms have "call_delete self net w = perform self ?rq net w1"
    by (simp add: call_delete_def)
  with Inr show ?thesis by (intro disjI2 exI [of _ ?rq]) simp
qed

text \<open>The same for any of the four, without the details of the request.\<close>

lemma do_call_cases:
  "\<exists>hs hres w1. add_trace_headers hs w = (hres, w1)
     \<and> (stopped (do_call c self net w) self w1
        \<or> (\<exists>rq. hres = Inr (req_headers rq) \<and> do_call c self net w = perform self rq net w1))"
proof (cases c)
  case (Post data timeout)
  obtain hres w1 where h: "add_trace_headers
    [(''Content-Type'', ''application/json''), (''Accept'', ''application/json''), bearer self] w
      = (hres, w1)" by (cases "add_trace_headers
    [(''Content-Type'', ''application/json''), (''Accept'', ''application/json''), bearer self] w")
  from call_post_cases [OF h, of data timeout net] Post h show ?thesis by fastforce
next
  case (Get timeout params)
  obtain hres w1 where h:
    "add_trace_headers [(''Accept'', ''application/json''), bearer self] w = (hres, w1)"
    by (cases "add_trace_headers [(''Accept'', ''application/json''), bearer self] w")
  from call_get_cases [OF h, of timeout params net] Get h show ?thesis by fastforce
next
  case (Put data)
  obtain hres w1 where h: "add_trace_headers
    [(''Accept'', ''application/json''), (''Content-Type'', ''application/json''), bearer self] w
      = (hres, w1)" by (cases "add_trace_headers
    [(''Accept'', ''application/json''), (''Content-Type'', ''application/json''), bearer self] w")
  from call_put_cases [OF h, of data net] Put h show ?thesis by fastforce
next
  case Delete
  obtain hres w1 where h:
    "add_trace_headers [(''Accept'', ''application/json''), bearer self] w = (hres, w1)"
    by (cases "add_trace_headers [(''Accept'', ''application/json''), bearer self] w")
  from call_delete_cases [OF h, of net] Delete h show ?thesis by fastforce
qed

lemma add_trace_headers_sent: "add_trace_headers hs w = (hres, w1) \<Longrightarrow> sent w1 = sent w"
  by (auto simp: add_trace_headers_def Let_def split: option.splits if_splits prod.splits)

lemma new_requests_stopped:
  "add_trace_headers hs w = (hres, w1) \<Longrightarrow> stopped out self w1 \<Longrightarrow>
   new_requests w (snd (snd out)) = []"
  by (auto simp: stopped_def new_requests_def dest: add_trace_headers_sent)

lemma new_requests_perform:
  "add_trace_headers hs w = (hres, w1) \<Longrightarrow>
   new_requests w (snd (snd (perform self rq net w1))) = [rq]"
  by (auto simp: new_requests_def perform_world dest: add_trace_headers_sent)

section \<open>Timeouts\<close>

lemma call_post_timeout:
  "rq \<in> set (new_requests w (snd (snd (call_post self data timeout net w)))) \<Longrightarrow>
   req_timeout rq = Given (arg_or (Some 60) timeout)"
proof -
  let ?hs = "[(''Content-Type'', ''application/json''), (''Accept'', ''application/json''),
    bearer self]"
  obtain hres w1 where h: "add_trace_headers ?hs w = (hres, w1)"
    by (cases "add_trace_headers ?hs w")
  assume "rq \<in> set (new_requests w (snd (snd (call_post self data timeout net w))))"
  with call_post_cases [OF h, of data timeout net] show ?thesis
    using new_requests_stopped [OF h] new_requests_perform [OF h] by fastforce
qed

lemma call_get_timeout:
  "rq \<in> set (new_requests w (snd (snd (call_get self timeout params net w)))) \<Longrightarrow>
   req_timeout rq = Given (arg_or (Some 60) timeout)"
proof -
  let ?hs = "[(''Accept'', ''application/json''), bearer self]"
  obtain hres w1 where h: "add_trace_headers ?hs w = (hres, w1)"
    by (cases "add_trace_headers ?hs w")
  assume "rq \<in> set (new_requests w (snd (snd (call_get self timeout params net w))))"
  with call_get_cases [OF h, of timeout params net] show ?thesis
    using new_requests_stopped [OF h] new_requests_perform [OF h] by fastforce
qed

lemma call_put_timeout:
  "rq \<in> set (new_requests w (snd (snd (call_put self data net w)))) \<Longrightarrow>
   req_timeout rq = Omitted"
proof -
  let ?hs = "[(''Accept'', ''application/json''), (''Content-Type'', ''application/json''),
    bearer self]"
  obtain hres w1 where h: "add_trace_headers ?hs w = (hres, w1)"
    by (cases "add_trace_headers ?hs w")
  assume "rq \<in> set (new_requests w (snd (snd (call_put self data net w))))"
  with call_put_cases [OF h, of data net] show ?thesis
    using new_requests_stopped [OF h] new_requests_perform [OF h] by fastforce
qed

lemma call_delete_timeout:
  "rq \<in> set (new_requests w (snd (snd (call_delete self net w)))) \<Longrightarrow>
   req_timeout rq = Omitted"
proof -
  let ?hs = "[(''Accept'', ''application/json''), bearer self]"
  obtain hres w1 where h: "add_trace_headers ?hs w = (hres, w1)"
    by (cases "add_trace_headers ?hs w")
  assume "rq \<in> set (new_requests w (snd (snd (call_delete self net w))))"
  with call_delete_cases [OF h, of net] show ?thesis
    using new_requests_stopped [OF h] new_requests_perform [OF h] by fastforce
qed

section \<open>The sample process, evaluated\<close>

lemma create_trace_id_rng0:
  "create_trace_id rng0 = ((trace0, span0), rng0\<lparr>drawn := 2\<rparr>)"
  by (simp add: create_trace_id_def randrange_def rng0_def format_0x_def hex_numeral hex_small
      hexdigit_def replicate_numeral trace0_def span0_def)

lemma add_trace_headers_world0:
  "add_trace_headers hs world0 =
    (Inr (AList.update ''X-B3-SpanId'' span0 (AList.update ''X-B3-TraceId'' trace0
       (AList.update ''traceparent'' (traceparent trace0 span0) hs))), world1)"
  by (simp add: add_trace_headers_def world0_def world1_def create_trace_id_rng0)

lemma add_trace_headers_world1:
  "add_trace_headers hs (world1\<lparr>sent := rs\<rparr>) =
    (Inr (AList.update ''X-B3-SpanId'' span0 (AList.update ''X-B3-TraceId'' trace0
       (AList.update ''traceparent'' (traceparent trace0 span0) hs))), world1\<lparr>sent := rs\<rparr>)"
  by (simp add: add_trace_headers_def world1_def)

lemma sent_world: "sent world0 = []" "sent world1 = []"
  by (simp_all add: world0_def world1_def)

lemmas sample_call =
  call_post_def call_get_def call_put_def call_delete_def add_trace_headers_world0
  perform_def answer_def check_response_def bearer_def is_dict_def sent_world

text \<open>
  C9, as the code has it. With no timeout given, \<^verbatim>\<open>_call_post\<close> and \<^verbatim>\<open>_call_get\<close> both pass
  60 seconds to the transport, and a given timeout is passed on; \<^verbatim>\<open>_call_put\<close> and
  \<^verbatim>\<open>_call_delete\<close> pass no timeout at all.
\<close>

theorem default_timeouts:
  "(\<forall>rq \<in> set (new_requests w (snd (snd (call_post self data Omitted net w)))).
      req_timeout rq = Given (Some 60))
   \<and> (\<forall>rq \<in> set (new_requests w (snd (snd (call_get self Omitted params net w)))).
      req_timeout rq = Given (Some 60))
   \<and> (\<forall>rq \<in> set (new_requests w (snd (snd (call_post self data (Given t) net w)))).
      req_timeout rq = Given t)
   \<and> (\<forall>rq \<in> set (new_requests w (snd (snd (call_get self (Given t) params net w)))).
      req_timeout rq = Given t)
   \<and> (\<forall>rq \<in> set (new_requests w (snd (snd (call_put self data net w)))).
      req_timeout rq = Omitted)
   \<and> (\<forall>rq \<in> set (new_requests w (snd (snd (call_delete self net w)))).
      req_timeout rq = Omitted)"
  using call_post_timeout [of _ w self data Omitted net]
    call_get_timeout [of _ w self Omitted params net]
    call_post_timeout [of _ w self data "Given t" net]
    call_get_timeout [of _ w self "Given t" params net]
    call_put_timeout [of _ w self data net] call_delete_timeout [of _ w self net]
  by simp

theorem default_timeouts_witness:
  "map req_timeout (new_requests world0
      (snd (snd (call_post self0 Omitted Omitted (answer True ''[]'') world0))))
     = [Given (Some 60)]
   \<and> map req_timeout (new_requests world0
      (snd (snd (call_get self0 Omitted Omitted (answer True ''[]'') world0))))
     = [Given (Some 60)]
   \<and> map req_timeout (new_requests world0
      (snd (snd (call_post self0 Omitted (Given (Some 300)) (answer True ''[]'') world0))))
     = [Given (Some 300)]
   \<and> map req_timeout (new_requests world0
      (snd (snd (call_get self0 (Given (Some 300)) Omitted (answer True ''[]'') world0))))
     = [Given (Some 300)]
   \<and> map req_timeout (new_requests world0
      (snd (snd (call_put self0 Omitted (answer True ''[]'') world0)))) = [Omitted]
   \<and> map req_timeout (new_requests world0
      (snd (snd (call_delete self0 (answer True ''[]'') world0)))) = [Omitted]"
proof -
  let ?net = "answer True ''[]''"
  have n: "length (new_requests world0 (snd (snd (call_post self0 Omitted Omitted ?net world0)))) = 1"
    "length (new_requests world0 (snd (snd (call_get self0 Omitted Omitted ?net world0)))) = 1"
    "length (new_requests world0
      (snd (snd (call_post self0 Omitted (Given (Some 300)) ?net world0)))) = 1"
    "length (new_requests world0
      (snd (snd (call_get self0 (Given (Some 300)) Omitted ?net world0)))) = 1"
    "length (new_requests world0 (snd (snd (call_put self0 Omitted ?net world0)))) = 1"
    "length (new_requests world0 (snd (snd (call_delete self0 ?net world0)))) = 1"
    by (simp_all add: sample_call new_requests_def)
  have one: "length rs = 1 \<Longrightarrow> \<forall>rq \<in> set rs. req_timeout rq = v \<Longrightarrow> map req_timeout rs = [v]"
    for rs :: "request list" and v
    by (cases rs) auto
  from default_timeouts [of world0 self0 Omitted ?net Omitted "Some 300"] n
  show ?thesis by (intro conjI one) simp_all
qed

text \<open>
  The claim C9 has \<^verbatim>\<open>_call_get\<close> pass no timeout when none is given: the request of the sample
  process carries 60 seconds.
\<close>

theorem get_timeout_counterexample:
  "map req_timeout (sent (snd (snd (call_get self0 Omitted Omitted (answer True ''[]'') world0))))
     \<noteq> [Omitted]
   \<and> map req_timeout (sent (snd (snd (call_get self0 Omitted Omitted (answer True ''[]'') world0))))
     = [Given (Some 60)]"
  by (simp add: sample_call)

section \<open>The body of a POST\<close>

text \<open>
  C3, as the code has it. A body that is neither a dictionary nor \<^verbatim>\<open>None\<close> makes
  \<^verbatim>\<open>_call_post\<close> raise before it reaches the transport: no request is handed over and the
  client is as it was. The exception is the \<^verbatim>\<open>TypeError\<close> of the check, unless the trace
  headers have raised \<^verbatim>\<open>KeyError\<close> before, on a context with \<^verbatim>\<open>TRACEID\<close> and no \<^verbatim>\<open>SPANID\<close>.
\<close>

theorem call_post_invalid_payload:
  assumes "data \<noteq> PNone" and "\<not> is_dict data"
    and "call_post self (Given data) timeout net w = (res, self', w')"
  shows "self' = self \<and> sent w' = sent w
    \<and> (res = Inl TypeError
       \<or> (res = Inl KeyError \<and> context_dict w ''TRACEID'' \<noteq> None
          \<and> context_dict w ''SPANID'' = None))"
proof -
  let ?hs = "[(''Content-Type'', ''application/json''), (''Accept'', ''application/json''),
    bearer self]"
  obtain hres w1 where h: "add_trace_headers ?hs w = (hres, w1)"
    by (cases "add_trace_headers ?hs w")
  then have s: "sent w1 = sent w" by (rule add_trace_headers_sent)
  show ?thesis
  proof (cases hres)
    case (Inl e)
    with h have "e = KeyError \<and> context_dict w ''TRACEID'' \<noteq> None
      \<and> context_dict w ''SPANID'' = None"
      by (auto simp: add_trace_headers_def Let_def split: option.splits if_splits prod.splits)
    with Inl h s assms(3) show ?thesis by (auto simp: call_post_def)
  next
    case (Inr hs')
    with h s assms show ?thesis by (auto simp: call_post_def Let_def)
  qed
qed

theorem call_post_invalid_payload_witness:
  "PList [PInt 1] \<noteq> PNone \<and> \<not> is_dict (PList [PInt 1])
   \<and> call_post self0 (Given (PList [PInt 1])) Omitted (answer True ''[]'') world0
       = (Inl TypeError, self0, world1)
   \<and> sent world1 = sent world0"
proof -
  have c: "call_post self0 (Given (PList [PInt 1])) Omitted (answer True ''[]'') world0
    = (Inl TypeError, self0, world1)"
    by (simp add: sample_call)
  have d: "PList [PInt 1] \<noteq> PNone" "\<not> is_dict (PList [PInt 1])"
    by (simp_all add: is_dict_def)
  from call_post_invalid_payload [OF d c] c d show ?thesis by simp
qed

text \<open>
  The claim C3 speaks of every body that is not a mapping: \<^verbatim>\<open>None\<close> is none, and the sample
  process sends it as the empty object.
\<close>

theorem call_post_none_counterexample:
  "\<not> is_dict PNone
   \<and> fst (call_post self0 (Given PNone) Omitted (answer True ''[]'') world0) = Inr ()
   \<and> map req_data (sent (snd (snd
        (call_post self0 (Given PNone) Omitted (answer True ''[]'') world0))))
      = [Given (PStr ''{}'')]"
  by (simp add: sample_call)

section \<open>A response that is ok\<close>

text \<open>
  C8. When the transport answers the request of a call, of any of the four verbs, with a
  response that is ok, the call returns, \<^verbatim>\<open>_content\<close> is the text of the response as it is, and
  the property \<^verbatim>\<open>content\<close> returns that text unless it is empty.
\<close>

theorem ok_response_kept:
  assumes "do_call c self net w = (res, self', w')"
    and "rq \<in> set (new_requests w w')" and "net rq = Inr r" and "ok r"
  shows "res = Inr () \<and> response self' = Some r \<and> priv_content self' = text_str r
    \<and> (text_str r \<noteq> [] \<longrightarrow> content self' = text_str r)"
proof -
  from do_call_cases [of w c self net] obtain hs hres w1 where
    h: "add_trace_headers hs w = (hres, w1)" and
    d: "stopped (do_call c self net w) self w1
      \<or> (\<exists>rq'. hres = Inr (req_headers rq') \<and> do_call c self net w = perform self rq' net w1)"
    by blast
  from d show ?thesis
  proof
    assume "stopped (do_call c self net w) self w1"
    from new_requests_stopped [OF h this] assms(1,2) show ?thesis by simp
  next
    assume "\<exists>rq'. hres = Inr (req_headers rq') \<and> do_call c self net w = perform self rq' net w1"
    then obtain rq' where p: "do_call c self net w = perform self rq' net w1" by blast
    with new_requests_perform [OF h, of self rq' net] assms(1,2) have "rq' = rq" by simp
    with p assms(1) perform_ok [of net rq r self w1] assms(3,4) show ?thesis
      by (auto simp: content_def)
  qed
qed
theorem ok_response_kept_witness:
  \<open>do_call (Get Omitted Omitted) self0 (answer True ''["svc1","svc2"]'') world0
     = (Inr (), self0\<lparr>response := Some \<lparr>ok = True, text_str = ''["svc1","svc2"]''\<rparr>,
          priv_content := ''["svc1","svc2"]''\<rparr>,
        world1\<lparr>sent := [\<lparr>req_verb = GET,
          req_url = ''http://localhost:8480/ubi-api-rest/ordercommand/objects/42'',
          req_headers = [(''Accept'', ''application/json''), (''Authorization'', ''Bearer abc''),
            (''traceparent'', traceparent trace0 span0), (''X-B3-TraceId'', trace0),
            (''X-B3-SpanId'', span0)],
          req_data = Omitted, req_params = Given (PDict []),
          req_timeout = Given (Some 60)\<rparr>]\<rparr>)
   \<and> content (self0\<lparr>response := Some \<lparr>ok = True, text_str = ''["svc1","svc2"]''\<rparr>,
          priv_content := ''["svc1","svc2"]''\<rparr>) = ''["svc1","svc2"]''\<close>
proof -
  let ?t = \<open>''["svc1","svc2"]''\<close>
  let ?rq = "\<lparr>req_verb = GET,
          req_url = ''http://localhost:8480/ubi-api-rest/ordercommand/objects/42'',
          req_headers = [(''Accept'', ''application/json''), (''Authorization'', ''Bearer abc''),
            (''traceparent'', traceparent trace0 span0), (''X-B3-TraceId'', trace0),
            (''X-B3-SpanId'', span0)],
          req_data = Omitted, req_params = Given (PDict []),
          req_timeout = Given (Some 60)\<rparr>"
  let ?self = "self0\<lparr>response := Some \<lparr>ok = True, text_str = ?t\<rparr>, priv_content := ?t\<rparr>"
  have c: "do_call (Get Omitted Omitted) self0 (answer True ?t) world0
    = (Inr (), ?self, world1\<lparr>sent := [?rq]\<rparr>)"
    by (simp add: sample_call self0_def)
  have m: "?rq \<in> set (new_requests world0 (world1\<lparr>sent := [?rq]\<rparr>))"
    by (simp add: new_requests_def sent_world)
  have a: "answer True ?t ?rq = Inr \<lparr>ok = True, text_str = ?t\<rparr>" by (simp add: answer_def)
  have o: "ok \<lparr>ok = True, text_str = ?t\<rparr>" by simp
  from ok_response_kept [OF c m a o] c show ?thesis by simp
qed

section \<open>The trace pair\<close>

lemma add_trace_headers_present:
  "context_dict w ''TRACEID'' = Some t \<Longrightarrow> snd (add_trace_headers hs w) = w"
  by (simp add: add_trace_headers_def split: option.splits)

lemma add_trace_headers_absent:
  assumes "context_dict w ''TRACEID'' = None" and "add_trace_headers hs w = (hres, w1)"
  shows "context_dict w1 ''TRACEID'' = Some (fst (fst (create_trace_id (random w))))
    \<and> context_dict w1 ''SPANID'' = Some (snd (fst (create_trace_id (random w))))
    \<and> drawn (random w1) = drawn (random w) + 2
    \<and> length (log_sink w1) = length (log_sink w) + 1 \<and> (\<exists>hs'. hres = Inr hs')"
  using assms
  by (auto simp: add_trace_headers_def Let_def create_trace_id_def randrange_def
      split: prod.splits)

lemma add_trace_headers_carried:
  assumes "add_trace_headers hs w = (Inr hs', w1)"
  shows "Some (map_of hs' ''traceparent'', map_of hs' ''X-B3-TraceId'', map_of hs' ''X-B3-SpanId'')
    = trace_of_context w1"
  using assms
  by (auto simp: add_trace_headers_def Let_def trace_of_context_def update_conv'
      split: option.splits if_splits prod.splits)

lemma do_call_world:
  "\<exists>hs hres w1. add_trace_headers hs w = (hres, w1)
     \<and> (snd (snd (do_call c self net w)) = w1
        \<or> (\<exists>rq. hres = Inr (req_headers rq)
              \<and> snd (snd (do_call c self net w)) = w1\<lparr>sent := sent w1 @ [rq]\<rparr>))"
proof -
  from do_call_cases [of w c self net] obtain hs hres w1 where
    h: "add_trace_headers hs w = (hres, w1)" and
    d: "stopped (do_call c self net w) self w1
      \<or> (\<exists>rq. hres = Inr (req_headers rq) \<and> do_call c self net w = perform self rq net w1)"
    by blast
  from d have "snd (snd (do_call c self net w)) = w1
    \<or> (\<exists>rq. hres = Inr (req_headers rq)
          \<and> snd (snd (do_call c self net w)) = w1\<lparr>sent := sent w1 @ [rq]\<rparr>)"
    by (auto simp: stopped_def perform_world)
  with h show ?thesis by blast
qed

text \<open>Once the context holds a trace id, no call changes context, random source or log.\<close>

lemma do_call_present:
  assumes "context_dict w ''TRACEID'' = Some t"
  shows "context_dict (snd (snd (do_call c self net w))) = context_dict w
    \<and> random (snd (snd (do_call c self net w))) = random w
    \<and> log_sink (snd (snd (do_call c self net w))) = log_sink w"
proof -
  from do_call_world [of w c self net] obtain hs hres w1 where
    h: "add_trace_headers hs w = (hres, w1)" and
    d: "snd (snd (do_call c self net w)) = w1
      \<or> (\<exists>rq. snd (snd (do_call c self net w)) = w1\<lparr>sent := sent w1 @ [rq]\<rparr>)"
    by blast
  from add_trace_headers_present [OF assms, of hs] h have "w1 = w" by simp
  with d show ?thesis by auto
qed

lemma run_present:
  "context_dict w ''TRACEID'' = Some t \<Longrightarrow>
   context_dict (run cs w) = context_dict w \<and> random (run cs w) = random w
   \<and> log_sink (run cs w) = log_sink w"
proof (induction cs arbitrary: w)
  case Nil
  show ?case by simp
next
  case (Cons x cs)
  obtain c self net where x: "x = (c, self, net)" by (cases x)
  let ?w = "snd (snd (do_call c self net w))"
  from do_call_present [OF Cons.prems, of c self net]
  have s: "context_dict ?w = context_dict w" "random ?w = random w" "log_sink ?w = log_sink w"
    by simp_all
  with Cons.prems have "context_dict ?w ''TRACEID'' = Some t" by simp
  from Cons.IH [OF this] s x show ?case by simp
qed

text \<open>The first call creates the pair if there is none; that is one pair, and one log line.\<close>

lemma do_call_absent:
  assumes "context_dict w ''TRACEID'' = None"
  shows "context_dict (snd (snd (do_call c self net w))) ''TRACEID'' \<noteq> None
    \<and> drawn (random (snd (snd (do_call c self net w)))) = drawn (random w) + 2
    \<and> length (log_sink (snd (snd (do_call c self net w)))) = length (log_sink w) + 1"
proof -
  from do_call_world [of w c self net] obtain hs hres w1 where
    h: "add_trace_headers hs w = (hres, w1)" and
    d: "snd (snd (do_call c self net w)) = w1
      \<or> (\<exists>rq. snd (snd (do_call c self net w)) = w1\<lparr>sent := sent w1 @ [rq]\<rparr>)"
    by blast
  from add_trace_headers_absent [OF assms h] d show ?thesis by auto
qed

lemma run_at_most_one_pair:
  "drawn (random (run cs w)) \<le> drawn (random w) + 2
   \<and> length (log_sink (run cs w)) \<le> length (log_sink w) + 1"
proof (cases cs)
  case Nil
  then show ?thesis by simp
next
  case (Cons x cs')
  obtain c self net where x: "x = (c, self, net)" by (cases x)
  let ?w = "snd (snd (do_call c self net w))"
  have r: "run cs w = run cs' ?w" using Cons x by simp
  show ?thesis
  proof (cases "context_dict w ''TRACEID''")
    case None
    from do_call_absent [OF None, of c self net] obtain t where
      t: "context_dict ?w ''TRACEID'' = Some t" and
      n: "drawn (random ?w) = drawn (random w) + 2"
        "length (log_sink ?w) = length (log_sink w) + 1"
      by auto
    from run_present [OF t, of cs'] n r show ?thesis by simp
  next
    case (Some t)
    from run_present [OF Some, of cs] show ?thesis by simp
  qed
qed

text \<open>Every request sent carries the pair of the context.\<close>

lemma do_call_carry:
  assumes "all_carry_context w"
  shows "all_carry_context (snd (snd (do_call c self net w)))"
proof -
  from do_call_world [of w c self net] obtain hs hres w1 where
    h: "add_trace_headers hs w = (hres, w1)" and
    d: "snd (snd (do_call c self net w)) = w1
      \<or> (\<exists>rq. hres = Inr (req_headers rq)
            \<and> snd (snd (do_call c self net w)) = w1\<lparr>sent := sent w1 @ [rq]\<rparr>)"
    by blast
  have w1: "all_carry_context w1"
  proof (cases "context_dict w ''TRACEID''")
    case None
    then have "trace_of_context w = None" by (simp add: trace_of_context_def)
    with assms have "sent w = []" by (cases "sent w") (auto simp: all_carry_context_def)
    with add_trace_headers_sent [OF h] show ?thesis by (simp add: all_carry_context_def)
  next
    case (Some t)
    from add_trace_headers_present [OF Some, of hs] h have "w1 = w" by simp
    with assms show ?thesis by simp
  qed
  from d show ?thesis
  proof
    assume "snd (snd (do_call c self net w)) = w1"
    with w1 show ?thesis by simp
  next
    assume "\<exists>rq. hres = Inr (req_headers rq)
      \<and> snd (snd (do_call c self net w)) = w1\<lparr>sent := sent w1 @ [rq]\<rparr>"
    then obtain rq where rq: "hres = Inr (req_headers rq)"
      "snd (snd (do_call c self net w)) = w1\<lparr>sent := sent w1 @ [rq]\<rparr>" by blast
    from h rq(1) have "add_trace_headers hs w = (Inr (req_headers rq), w1)" by simp
    from add_trace_headers_carried [OF this]
    have "Some (trace_headers rq) = trace_of_context w1"
      by (simp add: trace_headers_def header_def)
    with w1 rq(2) show ?thesis
      by (auto simp: all_carry_context_def trace_of_context_def)
  qed
qed

lemma run_carry: "all_carry_context w \<Longrightarrow> all_carry_context (run cs w)"
proof (induction cs arbitrary: w)
  case Nil
  then show ?case by simp
next
  case (Cons x cs)
  obtain c self net where x: "x = (c, self, net)" by (cases x)
  from do_call_carry [OF Cons.prems, of c self net]
  have "all_carry_context (run cs (snd (snd (do_call c self net w))))" by (rule Cons.IH)
  with x show ?case by simp
qed

text \<open>
  C4. If the context holds a trace id, \<^verbatim>\<open>add_trace_headers\<close> leaves the whole shared state as
  it is and puts that id into the headers. In any run of calls that starts with no request
  sent, all requests carry the same three trace headers, those of the pair in the context;
  at most two numbers are drawn and at most one creation is logged, so at most one pair is
  made; and from a context that holds a trace id the run changes neither the context nor
  the random source.
\<close>

theorem trace_pair_stable:
  "(context_dict w ''TRACEID'' = Some t \<longrightarrow>
      snd (add_trace_headers hs w) = w
      \<and> (\<forall>hs'. fst (add_trace_headers hs w) = Inr hs' \<longrightarrow> map_of hs' ''X-B3-TraceId'' = Some t))
   \<and> (sent w = [] \<longrightarrow>
        (\<forall>r1 \<in> set (sent (run cs w)). \<forall>r2 \<in> set (sent (run cs w)).
           trace_headers r1 = trace_headers r2)
        \<and> (\<forall>r \<in> set (sent (run cs w)). Some (trace_headers r) = trace_of_context (run cs w)))
   \<and> drawn (random (run cs w)) \<le> drawn (random w) + 2
   \<and> length (log_sink (run cs w)) \<le> length (log_sink w) + 1
   \<and> (context_dict w ''TRACEID'' = Some t \<longrightarrow>
        context_dict (run cs w) = context_dict w \<and> random (run cs w) = random w)"
proof -
  have a: "snd (add_trace_headers hs w) = w
      \<and> (\<forall>hs'. fst (add_trace_headers hs w) = Inr hs' \<longrightarrow> map_of hs' ''X-B3-TraceId'' = Some t)"
    if t: "context_dict w ''TRACEID'' = Some t"
  proof -
    have w: "snd (add_trace_headers hs w) = w" using t by (rule add_trace_headers_present)
    have "map_of hs' ''X-B3-TraceId'' = Some t" if "fst (add_trace_headers hs w) = Inr hs'" for hs'
    proof -
      from that w have "add_trace_headers hs w = (Inr hs', w)"
        by (cases "add_trace_headers hs w") simp
      from add_trace_headers_carried [OF this] t show ?thesis
        by (auto simp: trace_of_context_def split: option.splits)
    qed
    with w show ?thesis by blast
  qed
  have b: "(\<forall>r1 \<in> set (sent (run cs w)). \<forall>r2 \<in> set (sent (run cs w)).
           trace_headers r1 = trace_headers r2)
        \<and> (\<forall>r \<in> set (sent (run cs w)). Some (trace_headers r) = trace_of_context (run cs w))"
    if "sent w = []"
  proof -
    from that have "all_carry_context w" by (simp add: all_carry_context_def)
    then have "all_carry_context (run cs w)" by (rule run_carry)
    then have c: "\<forall>r \<in> set (sent (run cs w)). Some (trace_headers r) = trace_of_context (run cs w)"
      by (simp add: all_carry_context_def)
    have "trace_headers r1 = trace_headers r2"
      if "r1 \<in> set (sent (run cs w))" and "r2 \<in> set (sent (run cs w))" for r1 r2
    proof -
      from c that have "Some (trace_headers r1) = Some (trace_headers r2)" by metis
      then show ?thesis by (rule option.inject [THEN iffD1])
    qed
    with c show ?thesis by blast
  qed
  have d: "context_dict (run cs w) = context_dict w \<and> random (run cs w) = random w"
    if "context_dict w ''TRACEID'' = Some t"
    using run_present [OF that, of cs] by simp
  from run_at_most_one_pair [of cs w]
  have e: "drawn (random (run cs w)) \<le> drawn (random w) + 2"
    "length (log_sink (run cs w)) \<le> length (log_sink w) + 1" by simp_all
  show ?thesis
    apply (intro conjI impI)
    subgoal using a by blast
    subgoal using a by blast
    subgoal using b by blast
    subgoal using b by blast
    subgoal using e by blast
    subgoal using e by blast
    subgoal using d by blast
    subgoal using d by blast
    done
qed

lemma world1_trace: "context_dict world1 ''TRACEID'' = Some trace0"
  by (simp add: world1_def)

lemma run_sample:
  "run [(Get Omitted Omitted, self0, answer True ''[]''), (Delete, self0, answer True ''[]'')]
     world0
   = world1\<lparr>sent :=
      [\<lparr>req_verb = GET, req_url = url self0 @ path self0,
        req_headers = [(''Accept'', ''application/json''), (''Authorization'', ''Bearer abc''),
          (''traceparent'', traceparent trace0 span0), (''X-B3-TraceId'', trace0),
          (''X-B3-SpanId'', span0)],
        req_data = Omitted, req_params = Given (PDict []), req_timeout = Given (Some 60)\<rparr>,
       \<lparr>req_verb = DELETE, req_url = url self0 @ path self0,
        req_headers = [(''Accept'', ''application/json''), (''Authorization'', ''Bearer abc''),
          (''traceparent'', traceparent trace0 span0), (''X-B3-TraceId'', trace0),
          (''X-B3-SpanId'', span0)],
        req_data = Omitted, req_params = Omitted, req_timeout = Omitted\<rparr>]\<rparr>"
proof -
  have p: "priv_token self0 = ''abc''" by (simp add: self0_def)
  show ?thesis
    by (simp add: call_get_def call_delete_def add_trace_headers_world0 perform_def answer_def
        check_response_def bearer_def sent_world p
        add_trace_headers_world1 [of _ "[x]" for x, simplified])
qed

theorem trace_pair_stable_witness:
  "context_dict world1 ''TRACEID'' = Some trace0
   \<and> snd (add_trace_headers [] world1) = world1
   \<and> fst (add_trace_headers [] world1)
       = Inr [(''traceparent'', traceparent trace0 span0), (''X-B3-TraceId'', trace0),
              (''X-B3-SpanId'', span0)]
   \<and> sent world0 = []
   \<and> map trace_headers (sent (run
        [(Get Omitted Omitted, self0, answer True ''[]''), (Delete, self0, answer True ''[]'')]
        world0))
       = [(Some (traceparent trace0 span0), Some trace0, Some span0),
          (Some (traceparent trace0 span0), Some trace0, Some span0)]
   \<and> trace_of_context (run
        [(Get Omitted Omitted, self0, answer True ''[]''), (Delete, self0, answer True ''[]'')]
        world0)
       = Some (Some (traceparent trace0 span0), Some trace0, Some span0)
   \<and> drawn (random (run
        [(Get Omitted Omitted, self0, answer True ''[]''), (Delete, self0, answer True ''[]'')]
        world0)) = drawn (random world0) + 2
   \<and> context_dict (run [(Delete, self0, answer True ''[]'')] world1) = context_dict world1"
proof -
  let ?cs = "[(Get Omitted Omitted, self0, answer True ''[]''),
    (Delete, self0, answer True ''[]'')]"
  have h: "add_trace_headers [] world1
    = (Inr [(''traceparent'', traceparent trace0 span0), (''X-B3-TraceId'', trace0),
            (''X-B3-SpanId'', span0)], world1)"
    using add_trace_headers_world1 [of "[]" "[]"] by (simp add: world1_def world0_def)
  have e: "map trace_headers (sent (run ?cs world0))
       = [(Some (traceparent trace0 span0), Some trace0, Some span0),
          (Some (traceparent trace0 span0), Some trace0, Some span0)]"
    "trace_of_context (run ?cs world0)
       = Some (Some (traceparent trace0 span0), Some trace0, Some span0)"
    "drawn (random (run ?cs world0)) = drawn (random world0) + 2"
    unfolding run_sample
    by (simp_all add: trace_headers_def header_def trace_of_context_def world1_def world0_def
        rng0_def)
  from trace_pair_stable [of world1 trace0 "[]" "[(Delete, self0, answer True ''[]'')]"]
    trace_pair_stable [of world0 trace0 "[]" ?cs] world1_trace h e sent_world(1)
  show ?thesis by simp
qed

section \<open>Decoding what the encoder has written\<close>

subsection \<open>Strings\<close>

lemma of_char_less_256: "(of_char c :: nat) < 256"
proof -
  have "(of_char c :: nat) mod 256 < 256" by simp
  then show ?thesis by simp
qed

lemma hex_below_256:
  assumes "n < 256"
  shows "format_0x 4 n = [CHR ''0'', CHR ''0'', hexdigit (n div 16), hexdigit (n mod 16)]"
proof (cases "n < 16")
  case True
  then have "hex n = [hexdigit n]" by (subst hex.simps) simp
  moreover have "hexdigit 0 = CHR ''0''" by (simp add: hexdigit_def)
  ultimately show ?thesis using True by (simp add: format_0x_def replicate_numeral)
next
  case False
  from assms have "n div 16 < 16" by simp
  then have "hex (n div 16) = [hexdigit (n div 16)]" by (subst hex.simps) simp
  with False have "hex n = [hexdigit (n div 16), hexdigit (n mod 16)]"
    by (subst hex.simps) simp
  then show ?thesis by (simp add: format_0x_def replicate_numeral)
qed

lemma hexval_hexdigit: "d < 16 \<Longrightarrow> hexval (hexdigit d) = Some d"
proof -
  have "\<forall>d \<in> set [0..<16]. hexval (hexdigit d) = Some d" by code_simp
  moreover assume "d < 16"
  ultimately show ?thesis by simp
qed

lemma decode_hex4_escape:
  assumes "n < 256"
  shows "decode_hex4 (CHR ''0'') (CHR ''0'') (hexdigit (n div 16)) (hexdigit (n mod 16)) = Some n"
proof -
  have z: "hexval (CHR ''0'') = Some 0" by (simp add: hexval_def)
  from assms have "n div 16 < 16" by simp
  then have a: "hexval (hexdigit (n div 16)) = Some (n div 16)" by (rule hexval_hexdigit)
  have b: "hexval (hexdigit (n mod 16)) = Some (n mod 16)" by (rule hexval_hexdigit) simp
  show ?thesis by (simp add: decode_hex4_def z a b)
qed

lemma scanstring_u00:
  "scanstring (CHR 0x5C # CHR ''u'' # CHR ''0'' # CHR ''0'' # a # b # r)
    = (case decode_hex4 (CHR ''0'') (CHR ''0'') a b of
         None \<Rightarrow> None
       | Some n \<Rightarrow> if n < 256 then add_char (char_of n) (scanstring r) else None)"
  by simp

lemma scanstring_escape_char:
  "scanstring (escape_char c @ r) = add_char c (scanstring r)"
proof -
  let ?n = "of_char c :: nat"
  have n: "?n < 256" by (rule of_char_less_256)
  consider (quote) "c = CHR 0x22" | (backslash) "c = CHR 0x5C" | (nl) "c = CHR 0x0A"
    | (cr) "c = CHR 0x0D" | (tab) "c = CHR 0x09" | (bs) "c = CHR 0x08" | (ff) "c = CHR 0x0C"
    | (uni) "c \<noteq> CHR 0x22" "c \<noteq> CHR 0x5C" "c \<noteq> CHR 0x0A" "c \<noteq> CHR 0x0D" "c \<noteq> CHR 0x09"
        "c \<noteq> CHR 0x08" "c \<noteq> CHR 0x0C" "?n < 32 \<or> 126 < ?n"
    | (plain) "c \<noteq> CHR 0x22" "c \<noteq> CHR 0x5C" "\<not> (?n < 32 \<or> 126 < ?n)"
    by blast
  then show ?thesis
  proof cases
    case uni
    with hex_below_256 [OF n] have e: "escape_char c =
      CHR 0x5C # CHR ''u'' # CHR ''0'' # CHR ''0'' # hexdigit (?n div 16) # [hexdigit (?n mod 16)]"
      by (simp add: escape_char_def)
    show ?thesis
      unfolding e by (simp add: scanstring_u00 decode_hex4_escape [OF n] n del: scanstring.simps)
  next
    case plain
    then have "escape_char c = [c]" by (auto simp: escape_char_def)
    with plain show ?thesis by simp
  qed (simp_all add: escape_char_def unescape_def)
qed

lemma add_char_Some: "add_char c (Some (t, r)) = Some (c # t, r)"
  by (simp add: add_char_def)

lemma scanstring_escaped:
  "scanstring (concat (map escape_char s) @ CHR 0x22 # r) = Some (s, r)"
  by (induction s) (simp_all add: scanstring_escape_char add_char_Some)

lemma scanstring_encoded:
  "scanstring (drop 1 (encode_basestring_ascii s @ r)) = Some (s, r)"
  using scanstring_escaped [of s r] by (simp add: encode_basestring_ascii_def)

lemma encoded_starts: "starts_with [CHR 0x22] (encode_basestring_ascii s @ r)"
  by (simp add: encode_basestring_ascii_def starts_with_def)

subsection \<open>Integers\<close>

lemma decdigit_props:
  assumes "d < 10"
  shows "is_digit (decdigit d)" and "(of_char (decdigit d) :: nat) - 48 = d"
    and "d \<noteq> 0 \<Longrightarrow> decdigit d \<noteq> CHR ''0''"
proof -
  have "\<forall>d \<in> set [0..<10]. is_digit (decdigit d) \<and> (of_char (decdigit d) :: nat) - 48 = d
    \<and> (d \<noteq> 0 \<longrightarrow> decdigit d \<noteq> CHR ''0'')"
    by code_simp
  with assms show "is_digit (decdigit d)" and "(of_char (decdigit d) :: nat) - 48 = d"
    and "d \<noteq> 0 \<Longrightarrow> decdigit d \<noteq> CHR ''0''" by simp_all
qed

lemma str_nat_digits: "\<forall>c \<in> set (str_nat n). is_digit c"
proof (induction n rule: str_nat.induct)
  case (1 n)
  show ?case
  proof (cases "n < 10")
    case True
    then show ?thesis using decdigit_props(1) [of n] by (subst str_nat.simps) simp
  next
    case False
    with 1 decdigit_props(1) [of "n mod 10"] show ?thesis by (subst str_nat.simps) simp
  qed
qed

lemma str_nat_not_empty: "str_nat n \<noteq> []"
  by (subst str_nat.simps) simp

lemma nat_of_digits_snoc:
  "nat_of_digits (ds @ [c]) = 10 * nat_of_digits ds + (of_char c - 48)"
  by (simp add: nat_of_digits_def)

lemma nat_of_digits_str_nat: "nat_of_digits (str_nat n) = n"
proof (induction n rule: str_nat.induct)
  case (1 n)
  show ?case
  proof (cases "n < 10")
    case True
    then show ?thesis using decdigit_props(2) [of n]
      by (subst str_nat.simps) (simp add: nat_of_digits_def)
  next
    case False
    with 1 decdigit_props(2) [of "n mod 10"] show ?thesis
      by (subst str_nat.simps) (simp add: nat_of_digits_snoc)
  qed
qed

lemma str_nat_no_leading_zero: "n \<noteq> 0 \<Longrightarrow> hd (str_nat n) \<noteq> CHR ''0''"
proof (induction n rule: str_nat.induct)
  case (1 n)
  show ?case
  proof (cases "n < 10")
    case True
    with 1(2) show ?thesis using decdigit_props(3) [of n] by (subst str_nat.simps) simp
  next
    case False
    then have "n div 10 \<noteq> 0" by simp
    with 1(1) False have "hd (str_nat (n div 10)) \<noteq> CHR ''0''" by simp
    with False show ?thesis by (subst str_nat.simps) (simp add: str_nat_not_empty)
  qed
qed

lemma str_nat_zero: "str_nat 0 = ''0''"
  by (subst str_nat.simps) (simp add: decdigit_def)

lemma delim_cases:
  assumes "delim r"
  obtains "r = []" | c r' where "r = c # r'" and "c = CHR '','' \<or> c = CHR '']'' \<or> c = CHR ''}''"
  using assms by (cases r) (auto simp: delim_def)

lemma delim_not_float: "delim r \<Longrightarrow> \<not> starts_float r"
proof (erule delim_cases)
  show "\<not> starts_float r" if "r = []" using that by (simp add: starts_float_def)
  show "\<not> starts_float r"
    if "r = c # r'" and "c = CHR '','' \<or> c = CHR '']'' \<or> c = CHR ''}''" for c r'
    using that by (cases r') (auto simp: starts_float_def)
qed

lemma delim_skip_ws: "delim r \<Longrightarrow> skip_ws r = r"
  by (erule delim_cases) (auto simp: skip_ws_def is_ws_def)

lemma delim_takeWhile:
  assumes "delim r" and "\<forall>c \<in> set ds. is_digit c"
  shows "takeWhile is_digit (ds @ r) = ds"
proof -
  from assms(1) have "takeWhile is_digit r = []"
    by (rule delim_cases) (auto simp: is_digit_def)
  with assms(2) show ?thesis by (simp add: takeWhile_append2)
qed

lemma scan_digits:
  assumes "delim r"
  shows "scan_number (str_nat n @ r) = Some (PInt (int n), r)"
proof -
  obtain c cs where s: "str_nat n = c # cs" using str_nat_not_empty [of n] by (cases "str_nat n") auto
  have dig: "\<forall>c \<in> set (str_nat n). is_digit c" by (rule str_nat_digits)
  with s have c: "is_digit c" by simp
  then have nm: "c \<noteq> CHR ''-''" by (auto simp: is_digit_def)
  have tw: "takeWhile is_digit (str_nat n @ r) = str_nat n"
    using assms dig by (rule delim_takeWhile)
  show ?thesis
  proof (cases "n = 0")
    case True
    with delim_not_float [OF assms] show ?thesis
      by (simp add: str_nat_zero scan_number_def starts_with_def nat_of_digits_def is_digit_def)
  next
    case False
    from str_nat_no_leading_zero [OF False] s have "c \<noteq> CHR ''0''" by simp
    with s c nm tw delim_not_float [OF assms] nat_of_digits_str_nat [of n] show ?thesis
      by (simp add: scan_number_def starts_with_def Let_def)
  qed
qed

lemma scan_number_str_int:
  assumes "delim r"
  shows "scan_number (str_int i @ r) = Some (PInt i, r)"
proof (cases "i < 0")
  case False
  with scan_digits [OF assms, of "nat i"] show ?thesis by (simp add: str_int_def)
next
  case True
  let ?m = "nat (- i)"
  from True have m: "?m \<noteq> 0" by simp
  obtain c cs where s: "str_nat ?m = c # cs"
    using str_nat_not_empty [of ?m] by (cases "str_nat ?m") auto
  have dig: "\<forall>c \<in> set (str_nat ?m). is_digit c" by (rule str_nat_digits)
  with s have c: "is_digit c" by simp
  have tw: "takeWhile is_digit (str_nat ?m @ r) = str_nat ?m"
    using assms dig by (rule delim_takeWhile)
  from str_nat_no_leading_zero [OF m] s have "c \<noteq> CHR ''0''" by simp
  with s c tw delim_not_float [OF assms] nat_of_digits_str_nat [of ?m] True show ?thesis
    by (simp add: scan_number_def starts_with_def Let_def str_int_def)
qed

lemma str_int_first:
  "\<exists>c cs. str_int i = c # cs \<and> (c = CHR ''-'' \<or> is_digit c)"
proof -
  have "\<exists>c cs. str_nat n = c # cs \<and> is_digit c" for n
    using str_nat_not_empty [of n] str_nat_digits [of n] by (cases "str_nat n") auto
  then show ?thesis unfolding str_int_def by (cases "i < 0") fastforce+
qed

lemma scan_once_str_int:
  assumes "delim r"
  shows "scan_once (Suc n) (str_int i @ r) = Some (PInt i, r)"
proof -
  from str_int_first [of i] obtain c cs where
    s: "str_int i = c # cs" and c: "c = CHR ''-'' \<or> is_digit c" by blast
  from c have "c \<noteq> CHR 0x22 \<and> c \<noteq> CHR ''{'' \<and> c \<noteq> CHR ''['' \<and> c \<noteq> CHR ''n''
    \<and> c \<noteq> CHR ''t'' \<and> c \<noteq> CHR ''f''"
    by (auto simp: is_digit_def)
  then have "scan_once (Suc n) ((c # cs) @ r) = scan_number ((c # cs) @ r)"
    by (simp add: starts_with_def)
  with s scan_number_str_int [OF assms, of i] show ?thesis by simp
qed

subsection \<open>Values\<close>

lemma value_start_props:
  assumes "value_start c"
  shows "\<not> is_ws c" and "c \<noteq> CHR '']''" and "c \<noteq> CHR ''}''"
  using assms by (auto simp: value_start_def is_ws_def)

lemma skip_ws_value_start: "value_start c \<Longrightarrow> skip_ws (c # r) = c # r"
  by (simp add: skip_ws_def value_start_props(1))

lemma skip_ws_space: "skip_ws (CHR '' '' # r) = skip_ws r"
  by (simp add: skip_ws_def is_ws_def)

lemma digit_value_start:
  assumes "is_digit c"
  shows "value_start c"
proof -
  have "\<forall>n \<in> {48..<58}. \<exists>d \<in> set ''0123456789''. n = (of_char d :: nat)"
    by code_simp
  moreover from assms have "(of_char c :: nat) \<in> {48..<58}" by (simp add: is_digit_def)
  ultimately have "\<exists>d \<in> set ''0123456789''. (of_char c :: nat) = of_char d" by blast
  then show ?thesis by (auto simp: value_start_def)
qed

lemma value_start_chars:
  "value_start (CHR ''n'')" "value_start (CHR ''t'')" "value_start (CHR ''f'')"
  "value_start (CHR ''-'')" "value_start (CHR ''['')" "value_start (CHR ''{'')"
  "value_start (CHR 0x22)"
  by (simp_all add: value_start_def)

lemma dumps_first:
  assumes "dumps v = Some t"
  shows "\<exists>c cs. t = c # cs \<and> value_start c"
proof (cases v)
  case PNone
  with assms have "t = CHR ''n'' # ''ull''" by simp
  then show ?thesis using value_start_chars by blast
next
  case (PBool b)
  with assms have "t = CHR ''t'' # ''rue'' \<or> t = CHR ''f'' # ''alse''" by (cases b) auto
  then show ?thesis using value_start_chars by blast
next
  case (PInt i)
  from str_int_first [of i] obtain c cs where
    "str_int i = c # cs" and "c = CHR ''-'' \<or> is_digit c" by blast
  with digit_value_start [of c] value_start_chars(4) PInt assms show ?thesis by auto
next
  case (PStr s)
  with assms have "t = CHR 0x22 # concat (map escape_char s) @ [CHR 0x22]"
    by (simp add: encode_basestring_ascii_def)
  then show ?thesis using value_start_chars by blast
next
  case (PList xs)
  with assms obtain ts where "t = CHR ''['' # join '', '' ts @ '']''" by auto
  then show ?thesis using value_start_chars by blast
next
  case (PTuple xs)
  with assms obtain ts where "t = CHR ''['' # join '', '' ts @ '']''" by auto
  then show ?thesis using value_start_chars by blast
next
  case (PDict kvs)
  with assms obtain ts where "t = CHR ''{'' # join '', '' ts @ ''}''" by auto
  then show ?thesis using value_start_chars by blast
next
  case (PObj x)
  with assms show ?thesis by simp
qed

lemma dumps_item_first:
  assumes "dumps_item kv = Some t"
  shows "\<exists>cs. t = CHR 0x22 # cs"
  using assms by (cases kv) (auto simp: encode_basestring_ascii_def)

lemma dumps_elems_length: "dumps_elems xs = Some ts \<Longrightarrow> length ts = length xs"
  by (induction xs arbitrary: ts) (auto split: option.splits)

lemma dumps_items_length: "dumps_items kvs = Some ts \<Longrightarrow> length ts = length kvs"
  by (induction kvs arbitrary: ts) (auto split: option.splits)

lemma join_Cons: "join sep (t # ts) = (if ts = [] then t else t @ sep @ join sep ts)"
  by (cases ts) simp_all

lemma join_elems_first:
  assumes "dumps_elems xs = Some ts" and "xs \<noteq> []"
  shows "\<exists>c cs. join '', '' ts = c # cs \<and> value_start c"
proof -
  from assms obtain x xs' where x: "xs = x # xs'" by (cases xs) auto
  with assms(1) obtain t ts' where t: "dumps x = Some t" "ts = t # ts'"
    by (auto split: option.splits)
  from dumps_first [OF t(1)] t(2) show ?thesis by (auto simp: join_Cons)
qed

lemma join_items_first:
  assumes "dumps_items kvs = Some ts" and "kvs \<noteq> []"
  shows "\<exists>cs. join '', '' ts = CHR 0x22 # cs"
proof -
  from assms obtain kv kvs' where x: "kvs = kv # kvs'" by (cases kvs) auto
  with assms(1) obtain t ts' where t: "dumps_item kv = Some t" "ts = t # ts'"
    by (auto split: option.splits)
  from dumps_item_first [OF t(1)] t(2) show ?thesis by (auto simp: join_Cons)
qed

lemma scan_once_quote:
  "scan_once (Suc n) (CHR 0x22 # s) = map_option (\<lambda>(t, r). (PStr t, r)) (scanstring s)"
  by (simp add: starts_with_def)

lemma scan_once_bracket:
  "scan_once (Suc n) (CHR ''['' # s) =
    (if starts_with '']'' (skip_ws s) then Some (PList [], drop 1 (skip_ws s))
     else map_option (\<lambda>(vs, r'). (PList vs, r')) (JSONArray n (skip_ws s)))"
  by (simp add: starts_with_def Let_def)

lemma scan_once_brace:
  "scan_once (Suc n) (CHR ''{'' # s) =
    (if starts_with ''}'' (skip_ws s) then Some (PDict [], drop 1 (skip_ws s))
     else map_option (\<lambda>(ps, r'). (PDict (dict_of_pairs ps), r')) (JSONObject n (skip_ws s)))"
  by (simp add: starts_with_def Let_def)

lemma rt_none: "rt_val PNone"
  unfolding rt_val_def
proof (intro allI impI)
  fix t n r assume "dumps PNone = Some t" "length t \<le> n"
  then obtain m where "n = Suc m" "t = ''null''" by (cases n) auto
  then show "scan_once n (t @ r) = Some (decoded PNone, r)" by (simp add: starts_with_def)
qed

lemma rt_bool: "rt_val (PBool b)"
  unfolding rt_val_def
proof (intro allI impI)
  fix t n r assume "dumps (PBool b) = Some t" "length t \<le> n"
  then obtain m where "n = Suc m" "t = (if b then ''true'' else ''false'')"
    by (cases n) (auto split: if_splits)
  then show "scan_once n (t @ r) = Some (decoded (PBool b), r)"
    by (simp add: starts_with_def)
qed

lemma rt_int: "rt_val (PInt i)"
  unfolding rt_val_def
proof (intro allI impI)
  fix t n r assume a: "dumps (PInt i) = Some t" "length t \<le> n" "delim r"
  from str_int_first [of i] a(1,2) obtain m where "n = Suc m" "t = str_int i"
    by (cases n) auto
  with scan_once_str_int [OF a(3), of m i]
  show "scan_once n (t @ r) = Some (decoded (PInt i), r)" by simp
qed

lemma rt_str: "rt_val (PStr s)"
  unfolding rt_val_def
proof (intro allI impI)
  fix t n r assume a: "dumps (PStr s) = Some t" "length t \<le> n"
  then obtain m where m: "n = Suc m" "t = encode_basestring_ascii s"
    by (cases n) (auto simp: encode_basestring_ascii_def)
  have "scan_once (Suc m) (encode_basestring_ascii s @ r) = Some (PStr s, r)"
    using scanstring_escaped [of s r]
    by (simp add: encode_basestring_ascii_def scan_once_quote del: scan_once.simps)
  with m show "scan_once n (t @ r) = Some (decoded (PStr s), r)" by simp
qed

lemma rt_list:
  assumes "rt_elems xs" and d: "dumps_elems xs = Some ts"
    and l: "length (''['' @ join '', '' ts @ '']'') \<le> n"
  shows "scan_once n ((''['' @ join '', '' ts @ '']'') @ r) = Some (PList (decoded_elems xs), r)"
proof -
  from l obtain m where m: "n = Suc m" "length (join '', '' ts) < m" by (cases n) auto
  show ?thesis
  proof (cases "xs = []")
    case True
    with d have "ts = []" by simp
    with True m show ?thesis
      by (simp add: scan_once_bracket skip_ws_def is_ws_def starts_with_def del: scan_once.simps)
  next
    case False
    from join_elems_first [OF d False] obtain c cs where
      c: "join '', '' ts = c # cs" "value_start c" by blast
    from assms(1) d False m(2)
    have "JSONArray m (join '', '' ts @ CHR '']'' # r) = Some (decoded_elems xs, r)"
      unfolding rt_elems_def by blast
    with c m(1) show ?thesis
      by (simp add: scan_once_bracket skip_ws_value_start starts_with_def value_start_props
          del: scan_once.simps)
  qed
qed

lemma rt_dict:
  assumes "rt_items kvs" and d: "dumps_items kvs = Some ts"
    and l: "length (''{'' @ join '', '' ts @ ''}'') \<le> n"
  shows "scan_once n ((''{'' @ join '', '' ts @ ''}'') @ r)
      = Some (PDict (dict_of_pairs (decoded_items kvs)), r)"
proof -
  from l obtain m where m: "n = Suc m" "length (join '', '' ts) < m" by (cases n) auto
  show ?thesis
  proof (cases "kvs = []")
    case True
    with d have "ts = []" by simp
    with True m show ?thesis
      by (simp add: scan_once_brace skip_ws_def is_ws_def starts_with_def dict_of_pairs_def
          del: scan_once.simps)
  next
    case False
    from join_items_first [OF d False] obtain cs where
      c: "join '', '' ts = CHR 0x22 # cs" by blast
    from assms(1) d False m(2)
    have "JSONObject m (join '', '' ts @ CHR ''}'' # r) = Some (decoded_items kvs, r)"
      unfolding rt_items_def by blast
    with c m(1) show ?thesis
      by (simp add: scan_once_brace skip_ws_def is_ws_def starts_with_def del: scan_once.simps)
  qed
qed

lemma rt_elems_Cons:
  assumes x: "rt_val x" and xs: "rt_elems xs"
  shows "rt_elems (x # xs)"
  unfolding rt_elems_def
proof (intro allI impI)
  fix ts n r
  assume d: "dumps_elems (x # xs) = Some ts" and l: "length (join '', '' ts) < n"
  from d obtain t ts' where t: "dumps x = Some t" "dumps_elems xs = Some ts'" "ts = t # ts'"
    by (auto split: option.splits)
  from l obtain m where m: "n = Suc m" by (cases n) auto
  show "JSONArray n (join '', '' ts @ CHR '']'' # r) = Some (decoded_elems (x # xs), r)"
  proof (cases "xs = []")
    case True
    with t have ts: "ts = [t]" by simp
    with l m have "length t \<le> m" by simp
    moreover have "delim (CHR '']'' # r)" by (simp add: delim_def)
    ultimately have "scan_once m (t @ CHR '']'' # r) = Some (decoded x, CHR '']'' # r)"
      using x t(1) unfolding rt_val_def by blast
    with ts m True show ?thesis
      by (simp add: skip_ws_def is_ws_def starts_with_def)
  next
    case False
    with dumps_elems_length [OF t(2)] have ne: "ts' \<noteq> []" by auto
    let ?rest = "join '', '' ts' @ CHR '']'' # r"
    from ne t(3) have j: "join '', '' ts @ CHR '']'' # r = t @ CHR '','' # CHR '' '' # ?rest"
      by (simp add: join_Cons)
    from ne t(3) l m have lt: "length t \<le> m" and lr: "length (join '', '' ts') < m"
      by (simp_all add: join_Cons)
    have "delim (CHR '','' # CHR '' '' # ?rest)" by (simp add: delim_def)
    with lt have 1: "scan_once m (t @ CHR '','' # CHR '' '' # ?rest)
      = Some (decoded x, CHR '','' # CHR '' '' # ?rest)"
      using x t(1) unfolding rt_val_def by blast
    from join_elems_first [OF t(2) False] obtain c cs where
      c: "join '', '' ts' = c # cs" "value_start c" by blast
    then have 2: "skip_ws (CHR '' '' # ?rest) = ?rest"
      by (simp add: skip_ws_space skip_ws_value_start)
    from xs t(2) False lr have 3: "JSONArray m ?rest = Some (decoded_elems xs, r)"
      unfolding rt_elems_def by blast
    have 4: "skip_ws (CHR '','' # CHR '' '' # ?rest) = CHR '','' # CHR '' '' # ?rest"
      by (simp add: skip_ws_def is_ws_def)
    have 5: "JSONArray (Suc m) (t @ CHR '','' # CHR '' '' # ?rest)
      = map_option (\<lambda>(vs, r'). (decoded x # vs, r')) (JSONArray m (skip_ws (CHR '' '' # ?rest)))"
      by (simp add: 1 4 starts_with_def)
    show ?thesis
      unfolding j m 5 2 3 by simp
  qed
qed

lemma rt_items_Cons:
  assumes v: "rt_val v" and kvs: "rt_items kvs"
  shows "rt_items ((k, v) # kvs)"
  unfolding rt_items_def
proof (intro allI impI)
  fix ts n r
  assume d: "dumps_items ((k, v) # kvs) = Some ts" and l: "length (join '', '' ts) < n"
  let ?key = "encode_basestring_ascii (key_str k)"
  from d obtain tv ts' where t: "dumps v = Some tv" "dumps_items kvs = Some ts'"
    "ts = (?key @ '': '' @ tv) # ts'"
    by (auto split: option.splits)
  from l obtain m where m: "n = Suc m" by (cases n) auto
  from dumps_first [OF t(1)] obtain c cs where c: "tv = c # cs" "value_start c" by blast
  have sp: "skip_ws (CHR '' '' # tv @ s) = tv @ s" for s
    using c by (simp add: skip_ws_space skip_ws_value_start)
  have member: "JSONObject (Suc m) (?key @ CHR '':'' # CHR '' '' # tv @ tail)
    = (let r3 = skip_ws tail in
       if starts_with ''}'' r3 then Some ([(key_str k, decoded v)], drop 1 r3)
       else if starts_with '','' r3 then
         map_option (\<lambda>(ps, r'). ((key_str k, decoded v) # ps, r'))
           (JSONObject m (skip_ws (drop 1 r3)))
       else None)"
    if "scan_once m (tv @ tail) = Some (decoded v, tail)" for tail
  proof -
    let ?s = "?key @ CHR '':'' # CHR '' '' # tv @ tail"
    have a: "starts_with [CHR 0x22] ?s" by (rule encoded_starts)
    have b: "scanstring (drop 1 ?s) = Some (key_str k, CHR '':'' # CHR '' '' # tv @ tail)"
      by (rule scanstring_encoded)
    have e: "skip_ws (CHR '':'' # CHR '' '' # tv @ tail) = CHR '':'' # CHR '' '' # tv @ tail"
      by (simp add: skip_ws_def is_ws_def)
    have f: "starts_with '':'' (CHR '':'' # CHR '' '' # tv @ tail)"
      by (simp add: starts_with_def)
    have g: "skip_ws (drop 1 (CHR '':'' # CHR '' '' # tv @ tail)) = tv @ tail"
      using sp [of tail] by simp
    show ?thesis
      by (subst JSONObject.simps) (simp only: a b e f g that Let_def option.case prod.case
          not_True_eq_False if_False)
  qed
  show "JSONObject n (join '', '' ts @ CHR ''}'' # r) = Some (decoded_items ((k, v) # kvs), r)"
  proof (cases "kvs = []")
    case True
    with t have ts: "join '', '' ts @ CHR ''}'' # r
      = ?key @ CHR '':'' # CHR '' '' # tv @ CHR ''}'' # r" by simp
    from True t l m have "length tv \<le> m" by simp
    moreover have "delim (CHR ''}'' # r)" by (simp add: delim_def)
    ultimately have 1: "scan_once m (tv @ CHR ''}'' # r) = Some (decoded v, CHR ''}'' # r)"
      using v t(1) unfolding rt_val_def by blast
    show ?thesis
      unfolding ts m member [OF 1]
      by (simp add: True skip_ws_def is_ws_def starts_with_def)
  next
    case False
    with dumps_items_length [OF t(2)] have ne: "ts' \<noteq> []" by auto
    let ?rest = "join '', '' ts' @ CHR ''}'' # r"
    from ne t(3) have j: "join '', '' ts @ CHR ''}'' # r
      = ?key @ CHR '':'' # CHR '' '' # tv @ CHR '','' # CHR '' '' # ?rest"
      by (simp add: join_Cons)
    from ne t(3) l m have lt: "length tv \<le> m" and lr: "length (join '', '' ts') < m"
      by (simp_all add: join_Cons)
    have "delim (CHR '','' # CHR '' '' # ?rest)" by (simp add: delim_def)
    with lt have 1: "scan_once m (tv @ CHR '','' # CHR '' '' # ?rest)
      = Some (decoded v, CHR '','' # CHR '' '' # ?rest)"
      using v t(1) unfolding rt_val_def by blast
    from join_items_first [OF t(2) False] obtain cs' where
      "join '', '' ts' = CHR 0x22 # cs'" by blast
    then have 2: "skip_ws (CHR '' '' # ?rest) = ?rest"
      by (simp add: skip_ws_def is_ws_def)
    from kvs t(2) False lr have 3: "JSONObject m ?rest = Some (decoded_items kvs, r)"
      unfolding rt_items_def by blast
    have 4: "skip_ws (CHR '','' # CHR '' '' # ?rest) = CHR '','' # CHR '' '' # ?rest"
      by (simp add: skip_ws_def is_ws_def)
    show ?thesis
      unfolding j m member [OF 1] 4
      by (simp add: 2 3 starts_with_def)
  qed
qed

lemma round_trip_all:
  shows "rt_val v" and "rt_elems xs" and "rt_val (snd (kv :: pykey \<times> pyval))" and "rt_items kvs"
proof (induction v and xs and kv and kvs
    rule: dumps.induct dumps_elems.induct dumps_item.induct dumps_items.induct)
  case (PList xs)
  then show ?case unfolding rt_val_def using rt_list [of xs] by auto
next
  case (PTuple xs)
  then show ?case unfolding rt_val_def using rt_list [of xs] by auto
next
  case (PDict kvs)
  then show ?case unfolding rt_val_def using rt_dict [of kvs] by auto
next
  case (Cons_pyval x xs)
  then show ?case by (simp add: rt_elems_Cons)
next
  case (Pair_pykey_pyval k v)
  then show ?case by simp
next
  case (Cons_pykey_pyval_prod kv kvs)
  then show ?case by (cases kv) (simp add: rt_items_Cons)
next
  case PNone
  show ?case by (rule rt_none)
next
  case (PBool b)
  show ?case by (rule rt_bool)
next
  case (PInt i)
  show ?case by (rule rt_int)
next
  case (PStr s)
  show ?case by (rule rt_str)
next
  case (PObj x)
  show ?case by (simp add: rt_val_def)
next
  case Nil_pyval
  show ?case by (simp add: rt_elems_def)
next
  case Nil_pykey_pyval_prod
  show ?case by (simp add: rt_items_def)
qed

lemma scan_once_dumps:
  assumes "dumps v = Some t" and "length t \<le> n" and "delim r"
  shows "scan_once n (t @ r) = Some (decoded v, r)"
  using round_trip_all(1) [of v] assms unfolding rt_val_def by blast

lemma loads_dumps:
  assumes "dumps v = Some t"
  shows "loads t = Some (decoded v)"
proof -
  from dumps_first [OF assms] obtain c cs where c: "t = c # cs" "value_start c" by blast
  then have s: "skip_ws t = t" by (simp add: skip_ws_value_start)
  have "scan_once (Suc (length t)) (t @ []) = Some (decoded v, [])"
    using assms by (rule scan_once_dumps) (simp_all add: delim_def)
  then have "scan_once (Suc (length t)) t = Some (decoded v, [])" by simp
  then show ?thesis unfolding loads_def s by (simp add: skip_ws_def del: scan_once.simps)
qed

subsection \<open>Values that come back as they were\<close>

lemma update_fresh: "k \<notin> fst ` set al \<Longrightarrow> AList.update k v al = al @ [(k, v)]"
  by (induction al) auto

lemma dict_of_pairs_fold:
  "distinct (map fst ps) \<Longrightarrow> KStr ` fst ` set ps \<inter> fst ` set acc = {} \<Longrightarrow>
   foldl (\<lambda>d (k, v). AList.update (KStr k) v d) acc ps = acc @ map (\<lambda>(k, v). (KStr k, v)) ps"
proof (induction ps arbitrary: acc)
  case Nil
  show ?case by simp
next
  case (Cons p ps)
  obtain k v where p: "p = (k, v)" by (cases p)
  from Cons.prems p have fresh: "KStr k \<notin> fst ` set acc" by auto
  from Cons.prems p have "KStr ` fst ` set ps \<inter> fst ` set (acc @ [(KStr k, v)]) = {}"
    by (auto simp: image_iff)
  with Cons.IH [of "acc @ [(KStr k, v)]"] Cons.prems
  have "foldl (\<lambda>d (k, v). AList.update (KStr k) v d) (acc @ [(KStr k, v)]) ps
    = (acc @ [(KStr k, v)]) @ map (\<lambda>(k, v). (KStr k, v)) ps" by simp
  with p fresh show ?case by (simp add: update_fresh)
qed

lemma dict_of_pairs_distinct:
  "distinct (map fst ps) \<Longrightarrow> dict_of_pairs ps = map (\<lambda>(k, v). (KStr k, v)) ps"
  using dict_of_pairs_fold [of ps "[]"] by (simp add: dict_of_pairs_def)

lemma keys_of_tagged:
  "map fst (map (\<lambda>(k, v). (KStr k, v)) ps) = map KStr (map fst ps)"
  by (induction ps) auto

lemma native_all:
  shows "json_native v \<longrightarrow> decoded v = v \<and> dumps v \<noteq> None"
    and "json_native_elems xs \<longrightarrow> decoded_elems xs = xs \<and> dumps_elems xs \<noteq> None"
    and "json_native_item kv \<longrightarrow>
      (KStr (fst (decoded_item kv)), snd (decoded_item kv)) = kv \<and> dumps_item kv \<noteq> None"
    and "json_native_items kvs \<longrightarrow>
      map (\<lambda>(k, v). (KStr k, v)) (decoded_items kvs) = kvs \<and> dumps_items kvs \<noteq> None"
proof (induction v and xs and kv and kvs
    rule: dumps.induct dumps_elems.induct dumps_item.induct dumps_items.induct)
  case (PDict kvs)
  show ?case
  proof
    assume n: "json_native (PDict kvs)"
    then have n': "distinct (map fst kvs)" "json_native_items kvs" by simp_all
    from PDict n'(2) have m: "map (\<lambda>(k, v). (KStr k, v)) (decoded_items kvs) = kvs"
      and d: "dumps_items kvs \<noteq> None" by blast+
    have "map fst kvs = map fst (map (\<lambda>(k, v). (KStr k, v)) (decoded_items kvs))"
      by (simp only: m)
    also have "\<dots> = map KStr (map fst (decoded_items kvs))" by (rule keys_of_tagged)
    finally have "distinct (map KStr (map fst (decoded_items kvs)))" using n'(1) by simp
    then have "distinct (map fst (decoded_items kvs))"
      using distinct_map [of KStr "map fst (decoded_items kvs)"] by blast
    from dict_of_pairs_distinct [OF this] m d show "decoded (PDict kvs) = PDict kvs
      \<and> dumps (PDict kvs) \<noteq> None" by simp
  qed
next
  case (Pair_pykey_pyval k v)
  then show ?case by (cases k) (auto simp: is_KStr_def)
qed (auto split: option.splits)

lemma json_native_decoded: "json_native v \<Longrightarrow> decoded v = v"
  using native_all(1) [of v] by simp

lemma json_native_dumps: "json_native v \<Longrightarrow> \<exists>t. dumps v = Some t"
  using native_all(1) [of v] by auto

lemma loads_dumps_native:
  assumes "json_native v" and "dumps v = Some t"
  shows "loads t = Some v"
  using loads_dumps [OF assms(2)] json_native_decoded [OF assms(1)] by simp

subsection \<open>Values that the decoder returns\<close>

lemma json_native_items_iff:
  "json_native_items kvs \<longleftrightarrow> (\<forall>kv \<in> set kvs. is_KStr (fst kv) \<and> json_native (snd kv))"
  by (induction kvs) auto

lemma json_native_elems_iff: "json_native_elems xs \<longleftrightarrow> (\<forall>x \<in> set xs. json_native x)"
  by (induction xs) auto

lemma set_update_subset: "set (AList.update k v al) \<subseteq> insert (k, v) (set al)"
  by (induction al) auto

lemma dict_of_pairs_native_fold:
  assumes "\<forall>p \<in> set ps. json_native (snd p)"
    and "distinct (map fst acc)" and "json_native_items acc"
  shows "distinct (map fst (foldl (\<lambda>d (k, v). AList.update (KStr k) v d) acc ps))
    \<and> json_native_items (foldl (\<lambda>d (k, v). AList.update (KStr k) v d) acc ps)"
  using assms
proof (induction ps arbitrary: acc)
  case Nil
  then show ?case by simp
next
  case (Cons p ps)
  obtain k v where p: "p = (k, v)" by (cases p)
  from Cons.prems(2) have 1: "distinct (map fst (AList.update (KStr k) v acc))"
    by (rule distinct_update)
  from Cons.prems(1,3) p set_update_subset [of "KStr k" v acc]
  have 2: "json_native_items (AList.update (KStr k) v acc)"
    unfolding json_native_items_iff by (auto simp: is_KStr_def)
  from Cons.prems(1) have "\<forall>p \<in> set ps. json_native (snd p)" by simp
  from Cons.IH [OF this 1 2] p show ?case by simp
qed

lemma dict_of_pairs_native:
  "\<forall>p \<in> set ps. json_native (snd p) \<Longrightarrow> json_native (PDict (dict_of_pairs ps))"
  using dict_of_pairs_native_fold [of ps "[]"] by (simp add: dict_of_pairs_def)

lemma scan_number_native: "scan_number s = Some (v, r) \<Longrightarrow> json_native v"
  by (auto simp: scan_number_def Let_def split: list.splits if_splits)

lemma scan_native_all:
  "(\<forall>s v r. scan_once n s = Some (v, r) \<longrightarrow> json_native v)
   \<and> (\<forall>s vs r. JSONArray n s = Some (vs, r) \<longrightarrow> (\<forall>x \<in> set vs. json_native x))
   \<and> (\<forall>s ps r. JSONObject n s = Some (ps, r) \<longrightarrow> (\<forall>p \<in> set ps. json_native (snd p)))"
proof (induction n)
  case 0
  show ?case by simp
next
  case (Suc n)
  have a: "json_native v" if "scan_once (Suc n) s = Some (v, r)" for s v r
  proof -
    consider (str) "starts_with [CHR 0x22] s"
      | (obj) "\<not> starts_with [CHR 0x22] s" "starts_with ''{'' s"
      | (arr) "\<not> starts_with [CHR 0x22] s" "\<not> starts_with ''{'' s" "starts_with ''['' s"
      | (lit) "\<not> starts_with [CHR 0x22] s" "\<not> starts_with ''{'' s" "\<not> starts_with ''['' s"
      by blast
    then show ?thesis
    proof cases
      case str
      with that show ?thesis by auto
    next
      case obj
      with that have "v = PDict [] \<or> (\<exists>ps r'.
        JSONObject n (skip_ws (drop 1 s)) = Some (ps, r') \<and> v = PDict (dict_of_pairs ps))"
        by (auto simp: Let_def split: if_splits)
      then show ?thesis
      proof
        assume "v = PDict []"
        then show ?thesis by simp
      next
        assume "\<exists>ps r'. JSONObject n (skip_ws (drop 1 s)) = Some (ps, r')
          \<and> v = PDict (dict_of_pairs ps)"
        then obtain ps r' where ps: "JSONObject n (skip_ws (drop 1 s)) = Some (ps, r')"
          "v = PDict (dict_of_pairs ps)" by blast
        from Suc ps(1) have "\<forall>p \<in> set ps. json_native (snd p)" by blast
        then show ?thesis unfolding ps(2) by (rule dict_of_pairs_native)
      qed
    next
      case arr
      with that have "v = PList [] \<or> (\<exists>vs r'.
        JSONArray n (skip_ws (drop 1 s)) = Some (vs, r') \<and> v = PList vs)"
        by (auto simp: Let_def split: if_splits)
      then show ?thesis
      proof
        assume "v = PList []"
        then show ?thesis by simp
      next
        assume "\<exists>vs r'. JSONArray n (skip_ws (drop 1 s)) = Some (vs, r') \<and> v = PList vs"
        then obtain vs r' where vs: "JSONArray n (skip_ws (drop 1 s)) = Some (vs, r')"
          "v = PList vs" by blast
        from Suc vs(1) have "\<forall>x \<in> set vs. json_native x" by blast
        then show ?thesis unfolding vs(2) by (simp add: json_native_elems_iff)
      qed
    next
      case lit
      with that scan_number_native show ?thesis
        by (auto split: if_splits)
    qed
  qed
  from Suc have ih1: "\<And>s v r. scan_once n s = Some (v, r) \<Longrightarrow> json_native v"
    and ih2: "\<And>s vs r x. JSONArray n s = Some (vs, r) \<Longrightarrow> x \<in> set vs \<Longrightarrow> json_native x"
    and ih3: "\<And>s ps r p. JSONObject n s = Some (ps, r) \<Longrightarrow> p \<in> set ps \<Longrightarrow> json_native (snd p)"
    by blast+
  have b: "\<forall>x \<in> set vs. json_native x" if "JSONArray (Suc n) s = Some (vs, r)" for s vs r
  proof -
    from that obtain v r1 where v: "scan_once n s = Some (v, r1)"
      by (auto split: option.splits)
    with that have "vs = [v] \<or> (\<exists>vs' r'.
      JSONArray n (skip_ws (drop 1 (skip_ws r1))) = Some (vs', r') \<and> vs = v # vs')"
      by (auto simp: Let_def split: if_splits)
    then show ?thesis
    proof
      assume "vs = [v]"
      with ih1 [OF v] show ?thesis by simp
    next
      assume "\<exists>vs' r'. JSONArray n (skip_ws (drop 1 (skip_ws r1))) = Some (vs', r')
        \<and> vs = v # vs'"
      then obtain vs' r' where
        vs': "JSONArray n (skip_ws (drop 1 (skip_ws r1))) = Some (vs', r')" "vs = v # vs'"
        by blast
      from ih2 [OF vs'(1)] ih1 [OF v] vs'(2) show ?thesis by simp
    qed
  qed
  have c: "\<forall>p \<in> set ps. json_native (snd p)" if "JSONObject (Suc n) s = Some (ps, r)" for s ps r
  proof -
    from that obtain k r0 where k: "scanstring (drop 1 s) = Some (k, r0)"
      by (auto split: option.splits if_splits)
    with that obtain v r1 where v: "scan_once n (skip_ws (drop 1 (skip_ws r0))) = Some (v, r1)"
      by (auto simp: Let_def split: option.splits if_splits)
    with that k have "ps = [(k, v)] \<or> (\<exists>ps' r'.
      JSONObject n (skip_ws (drop 1 (skip_ws r1))) = Some (ps', r') \<and> ps = (k, v) # ps')"
      by (auto simp: Let_def split: if_splits)
    then show ?thesis
    proof
      assume "ps = [(k, v)]"
      with ih1 [OF v] show ?thesis by simp
    next
      assume "\<exists>ps' r'. JSONObject n (skip_ws (drop 1 (skip_ws r1))) = Some (ps', r')
        \<and> ps = (k, v) # ps'"
      then obtain ps' r' where
        ps': "JSONObject n (skip_ws (drop 1 (skip_ws r1))) = Some (ps', r')" "ps = (k, v) # ps'"
        by blast
      from ih3 [OF ps'(1)] ih1 [OF v] ps'(2) show ?thesis by simp
    qed
  qed
  from a b c show ?case by blast
qed

lemma scan_once_native: "scan_once n s = Some (v, r) \<Longrightarrow> json_native v"
  using scan_native_all [of n] by blast

lemma loads_native:
  assumes "loads s = Some v"
  shows "json_native v"
proof -
  from assms obtain r where "scan_once (Suc (length s)) (skip_ws s) = Some (v, r)"
    by (auto simp: loads_def simp del: scan_once.simps split: option.splits if_splits)
  then show ?thesis by (rule scan_once_native)
qed

section \<open>The envelope encoder\<close>

lemma envelope_native:
  "json_native comment \<Longrightarrow> json_native m \<Longrightarrow> json_native (envelope status comment m)"
  by (simp add: envelope_def is_KStr_def)

lemma process_content_unlogged:
  "arg_or False l = False \<Longrightarrow>
   process_content (PStr status) comment m l w =
     (case dumps (envelope status comment m) of
        None \<Rightarrow> (Inl TypeError, w)
      | Some t \<Rightarrow> (Inr t, w))"
  by (simp add: process_content_def envelope_def)

text \<open>
  C2, as the code has it. For every mapping, and every other value, that JSON has as it
  is (string keys, no key twice, no tuple, at every depth) and every string \<open>c\<close>,
  \<^verbatim>\<open>process_content(ENDED, c, m)\<close> returns a text, logs nothing, and parsing that text gives
  exactly the envelope of \<^verbatim>\<open>ENDED\<close>, \<open>c\<close> and \<open>m\<close>.
\<close>

theorem envelope_round_trip:
  assumes "json_native m"
  shows "\<exists>t. process_content (PStr ENDED) (PStr c) m Omitted w = (Inr t, w)
    \<and> loads t = Some (envelope ENDED (PStr c) m)"
proof -
  have n: "json_native (envelope ENDED (PStr c) m)" using assms by (simp add: envelope_native)
  then obtain t where t: "dumps (envelope ENDED (PStr c) m) = Some t"
    using json_native_dumps by blast
  from n t have "loads t = Some (envelope ENDED (PStr c) m)" by (rule loads_dumps_native)
  with t show ?thesis by (simp add: process_content_unlogged)
qed

lemma text_done_x1:
  \<open>dumps (envelope ENDED (PStr ''done'') (PDict [(KStr ''x'', PInt 1)]))
     = Some ''{"wo_status": "ENDED", "wo_comment": "done", "wo_newparams": {"x": 1}}''\<close>
  by code_simp

theorem envelope_round_trip_witness:
  \<open>json_native (PDict [(KStr ''x'', PInt 1)])
   \<and> process_content (PStr ENDED) (PStr ''done'') (PDict [(KStr ''x'', PInt 1)]) Omitted world0
       = (Inr ''{"wo_status": "ENDED", "wo_comment": "done", "wo_newparams": {"x": 1}}'', world0)
   \<and> loads ''{"wo_status": "ENDED", "wo_comment": "done", "wo_newparams": {"x": 1}}''
       = Some (envelope ENDED (PStr ''done'') (PDict [(KStr ''x'', PInt 1)]))\<close>
proof -
  have n: "json_native (PDict [(KStr ''x'', PInt 1)])" by (simp add: is_KStr_def)
  from envelope_round_trip [OF n, of "''done''" world0] text_done_x1 n
  show ?thesis by (simp add: process_content_unlogged)
qed

text \<open>
  The claim C2 speaks of every mapping that can be serialized. A mapping with the integer
  key 1 can; its key comes back as the string \<^verbatim>\<open>"1"\<close>, so the parsed envelope is not the one
  that was encoded.
\<close>

theorem envelope_round_trip_counterexample:
  \<open>fst (process_content (PStr ENDED) (PStr ''done'') (PDict [(KInt 1, PInt 2)]) Omitted world0)
     = Inr ''{"wo_status": "ENDED", "wo_comment": "done", "wo_newparams": {"1": 2}}''
   \<and> loads ''{"wo_status": "ENDED", "wo_comment": "done", "wo_newparams": {"1": 2}}''
       = Some (envelope ENDED (PStr ''done'') (PDict [(KStr ''1'', PInt 2)]))
   \<and> loads ''{"wo_status": "ENDED", "wo_comment": "done", "wo_newparams": {"1": 2}}''
       \<noteq> Some (envelope ENDED (PStr ''done'') (PDict [(KInt 1, PInt 2)]))\<close>
proof -
  have d: \<open>dumps (envelope ENDED (PStr ''done'') (PDict [(KInt 1, PInt 2)]))
    = Some ''{"wo_status": "ENDED", "wo_comment": "done", "wo_newparams": {"1": 2}}''\<close>
    by code_simp
  have l: \<open>loads ''{"wo_status": "ENDED", "wo_comment": "done", "wo_newparams": {"1": 2}}''
    = Some (envelope ENDED (PStr ''done'') (PDict [(KStr ''1'', PInt 2)]))\<close>
    by code_simp
  from d l show ?thesis by (simp add: process_content_unlogged envelope_def)
qed

section \<open>A response that is not ok\<close>

lemma native_member:
  assumes "json_native (PDict d)" and "map_of d k = Some m"
  shows "json_native m"
proof -
  from assms(2) have "(k, m) \<in> set d" by (rule map_of_SomeD)
  with assms(1) show ?thesis by (auto simp: json_native_items_iff)
qed

lemma check_response_failed:
  assumes "response self = Some r" and "\<not> ok r"
    and "loads (text_str r) = Some (PDict d)" and "map_of d (KStr ''message'') = Some m"
    and "action self = PStr a"
  shows "\<exists>t. check_response self w = (Inr (), self\<lparr>priv_content := t\<rparr>, w)
    \<and> dumps (envelope FAILED (PStr a) m) = Some t
    \<and> loads t = Some (envelope FAILED (PStr a) m)"
proof -
  from assms(3) have "json_native (PDict d)" by (rule loads_native)
  then have "json_native m" using assms(4) by (rule native_member)
  then have n: "json_native (envelope FAILED (PStr a) m)" by (simp add: envelope_native)
  then obtain t where t: "dumps (envelope FAILED (PStr a) m) = Some t"
    using json_native_dumps by blast
  from n t have l: "loads t = Some (envelope FAILED (PStr a) m)" by (rule loads_dumps_native)
  from assms t have "check_response self w = (Inr (), self\<lparr>priv_content := t\<rparr>, w)"
    by (simp add: check_response_def process_content_unlogged)
  with t l show ?thesis by blast
qed

text \<open>
  C1, as the code has it. When the transport answers the request of a call, of any of the
  four verbs, with a response that is not ok and whose text parses to an object with a
  member \<^verbatim>\<open>message\<close>, and the action of the client is a string, the call returns and
  \<^verbatim>\<open>_content\<close> is the JSON text of an envelope: parsed, its \<open>wo_status\<close> is \<^verbatim>\<open>FAILED\<close>, its
  \<open>wo_comment\<close> is the action and its \<open>wo_newparams\<close> is the message.
\<close>

theorem failed_response_envelope:
  assumes "do_call c self net w = (res, self', w')"
    and "rq \<in> set (new_requests w w')" and "net rq = Inr r" and "\<not> ok r"
    and "loads (text_str r) = Some (PDict d)" and "map_of d (KStr ''message'') = Some m"
    and "action self = PStr a"
  shows "res = Inr () \<and> response self' = Some r
    \<and> dumps (envelope FAILED (PStr a) m) = Some (priv_content self')
    \<and> loads (priv_content self') = Some (envelope FAILED (PStr a) m)
    \<and> content self' = priv_content self'"
proof -
  from do_call_cases [of w c self net] obtain hs hres w1 where
    h: "add_trace_headers hs w = (hres, w1)" and
    d: "stopped (do_call c self net w) self w1
      \<or> (\<exists>rq'. hres = Inr (req_headers rq') \<and> do_call c self net w = perform self rq' net w1)"
    by blast
  from d show ?thesis
  proof
    assume "stopped (do_call c self net w) self w1"
    from new_requests_stopped [OF h this] assms(1,2) show ?thesis by simp
  next
    assume "\<exists>rq'. hres = Inr (req_headers rq') \<and> do_call c self net w = perform self rq' net w1"
    then obtain rq' where p: "do_call c self net w = perform self rq' net w1" by blast
    with new_requests_perform [OF h, of self rq' net] assms(1,2) have "rq' = rq" by simp
    let ?self = "self\<lparr>response := Some r, priv_content := text_str r\<rparr>"
    let ?w = "w1\<lparr>sent := sent w1 @ [rq]\<rparr>"
    from p \<open>rq' = rq\<close> assms(1,3)
    have c: "check_response ?self ?w = (res, self', w')" by (simp add: perform_def Let_def)
    have "response ?self = Some r" and "action ?self = PStr a" using assms(7) by simp_all
    from check_response_failed [OF this(1) assms(4,5,6) this(2), of ?w] c
    obtain t where t: "res = Inr ()" "self' = ?self\<lparr>priv_content := t\<rparr>"
      "dumps (envelope FAILED (PStr a) m) = Some t" "loads t = Some (envelope FAILED (PStr a) m)"
      by auto
    from dumps_first [OF t(3)] have "t \<noteq> []" by auto
    with t show ?thesis by (simp add: content_def)
  qed
qed

lemma loads_bad_input:
  \<open>loads ''{"message":"bad input"}'' = Some (PDict [(KStr ''message'', PStr ''bad input'')])\<close>
  by code_simp

lemma text_failed_bad_input:
  \<open>dumps (envelope FAILED (PStr ''Command execute'') (PStr ''bad input''))
     = Some ''{"wo_status": "FAILED", "wo_comment": "Command execute", "wo_newparams": "bad input"}''\<close>
  by code_simp

lemma post_bad_input:
  \<open>do_call (Post Omitted Omitted) self0 (answer False ''{"message":"bad input"}'') world0
   = (Inr (),
      self0\<lparr>response := Some \<lparr>ok = False, text_str = ''{"message":"bad input"}''\<rparr>,
        priv_content :=
          ''{"wo_status": "FAILED", "wo_comment": "Command execute", "wo_newparams": "bad input"}''\<rparr>,
      world1\<lparr>sent := [\<lparr>req_verb = POST,
        req_url = ''http://localhost:8480/ubi-api-rest/ordercommand/objects/42'',
        req_headers = [(''Content-Type'', ''application/json''), (''Accept'', ''application/json''),
          (''Authorization'', ''Bearer abc''), (''traceparent'', traceparent trace0 span0),
          (''X-B3-TraceId'', trace0), (''X-B3-SpanId'', span0)],
        req_data = Given (PStr ''{}''), req_params = Omitted,
        req_timeout = Given (Some 60)\<rparr>]\<rparr>)\<close>
proof -
  have a: "action self0 = PStr ''Command execute''" by (simp add: self0_def)
  show ?thesis
    using text_failed_bad_input
    by (simp add: call_post_def add_trace_headers_world0 perform_def answer_def
        check_response_def bearer_def is_dict_def sent_world loads_bad_input
        process_content_unlogged a)
      (simp add: self0_def)
qed

theorem failed_response_envelope_witness:
  \<open>do_call (Post Omitted Omitted) self0 (answer False ''{"message":"bad input"}'') world0
   = (Inr (),
      self0\<lparr>response := Some \<lparr>ok = False, text_str = ''{"message":"bad input"}''\<rparr>,
        priv_content :=
          ''{"wo_status": "FAILED", "wo_comment": "Command execute", "wo_newparams": "bad input"}''\<rparr>,
      world1\<lparr>sent := [\<lparr>req_verb = POST,
        req_url = ''http://localhost:8480/ubi-api-rest/ordercommand/objects/42'',
        req_headers = [(''Content-Type'', ''application/json''), (''Accept'', ''application/json''),
          (''Authorization'', ''Bearer abc''), (''traceparent'', traceparent trace0 span0),
          (''X-B3-TraceId'', trace0), (''X-B3-SpanId'', span0)],
        req_data = Given (PStr ''{}''), req_params = Omitted,
        req_timeout = Given (Some 60)\<rparr>]\<rparr>)
   \<and> loads ''{"message":"bad input"}'' = Some (PDict [(KStr ''message'', PStr ''bad input'')])
   \<and> action self0 = PStr ''Command execute''
   \<and> loads ''{"wo_status": "FAILED", "wo_comment": "Command execute", "wo_newparams": "bad input"}''
       = Some (envelope FAILED (PStr ''Command execute'') (PStr ''bad input''))\<close>
proof -
  let ?body = \<open>''{"message":"bad input"}''\<close>
  let ?rq = "\<lparr>req_verb = POST,
        req_url = ''http://localhost:8480/ubi-api-rest/ordercommand/objects/42'',
        req_headers = [(''Content-Type'', ''application/json''), (''Accept'', ''application/json''),
          (''Authorization'', ''Bearer abc''), (''traceparent'', traceparent trace0 span0),
          (''X-B3-TraceId'', trace0), (''X-B3-SpanId'', span0)],
        req_data = Given (PStr ''{}''), req_params = Omitted,
        req_timeout = Given (Some 60)\<rparr>"
  have m: "?rq \<in> set (new_requests world0 (world1\<lparr>sent := [?rq]\<rparr>))"
    by (simp add: new_requests_def sent_world)
  have n: "answer False ?body ?rq = Inr \<lparr>ok = False, text_str = ?body\<rparr>"
    by (simp add: answer_def)
  have o: "\<not> ok \<lparr>ok = False, text_str = ?body\<rparr>" by simp
  have l: "loads (text_str \<lparr>ok = False, text_str = ?body\<rparr>)
    = Some (PDict [(KStr ''message'', PStr ''bad input'')])"
    using loads_bad_input by simp
  have k: "map_of [(KStr ''message'', PStr ''bad input'')] (KStr ''message'')
    = Some (PStr ''bad input'')" by simp
  have a: "action self0 = PStr ''Command execute''" by (simp add: self0_def)
  from failed_response_envelope [OF post_bad_input m n o l k a] post_bad_input a loads_bad_input
  show ?thesis by simp
qed

text \<open>
  The claim C1 has the message in \<open>wo_comment\<close>. In the sample process the server answers
  \<^verbatim>\<open>{"message":"bad input"}\<close> to the action \<^verbatim>\<open>Command execute\<close>: the comment of the envelope is
  the action, in which the message does not occur, and the message is under \<open>wo_newparams\<close>.
\<close>

theorem failed_response_comment_counterexample:
  \<open>priv_content (fst (snd
     (do_call (Post Omitted Omitted) self0 (answer False ''{"message":"bad input"}'') world0)))
     = ''{"wo_status": "FAILED", "wo_comment": "Command execute", "wo_newparams": "bad input"}''
   \<and> loads ''{"wo_status": "FAILED", "wo_comment": "Command execute", "wo_newparams": "bad input"}''
       = Some (PDict [(KStr ''wo_status'', PStr ''FAILED''),
                      (KStr ''wo_comment'', PStr ''Command execute''),
                      (KStr ''wo_newparams'', PStr ''bad input'')])
   \<and> \<not> contains_str ''bad input'' ''Command execute''\<close>
proof -
  have l: \<open>loads
    ''{"wo_status": "FAILED", "wo_comment": "Command execute", "wo_newparams": "bad input"}''
       = Some (PDict [(KStr ''wo_status'', PStr ''FAILED''),
                      (KStr ''wo_comment'', PStr ''Command execute''),
                      (KStr ''wo_newparams'', PStr ''bad input'')])\<close>
    by code_simp
  have c: "\<not> contains_str ''bad input'' ''Command execute''" by code_simp
  from l c show ?thesis unfolding post_bad_input by simp
qed

section \<open>More on the encoder\<close>

subsection \<open>The text is one line of printable ASCII\<close>

lemma printable_literals:
  "\<forall>c \<in> set ''0123456789abcdef''. printable c" "\<forall>c \<in> set ''null''. printable c"
  "\<forall>c \<in> set ''true''. printable c" "\<forall>c \<in> set ''false''. printable c"
  "\<forall>c \<in> set '', ''. printable c" "\<forall>c \<in> set '': ''. printable c"
  "\<forall>c \<in> set ''[]{}-u''. printable c" "\<forall>c \<in> set ''nrtbf''. printable c"
  "printable (CHR 0x22)" "printable (CHR 0x5C)"
  by (simp_all add: printable_def)

lemma escape_char_printable: "\<forall>x \<in> set (escape_char c). printable x"
proof -
  have h: "\<forall>x \<in> set (format_0x 4 (of_char c)). printable x"
    using format_0x_chars [of 4 "of_char c"] printable_literals(1) by blast
  show ?thesis
    using h printable_literals by (auto simp: escape_char_def printable_def)
qed

lemma encode_printable: "\<forall>x \<in> set (encode_basestring_ascii s). printable x"
  using escape_char_printable printable_literals(9)
  by (auto simp: encode_basestring_ascii_def)

lemma str_int_printable: "\<forall>x \<in> set (str_int i). printable x"
proof -
  have "printable x" if "is_digit x" for x
    using that by (simp add: is_digit_def printable_def)
  with str_nat_digits printable_literals(7) show ?thesis
    by (auto simp: str_int_def)
qed

lemma key_str_encode_printable: "\<forall>x \<in> set (encode_basestring_ascii (key_str k)). printable x"
  by (rule encode_printable)

lemma join_set: "set (join sep ts) \<subseteq> set sep \<union> (\<Union>t \<in> set ts. set t)"
  by (induction sep ts rule: join.induct) auto

lemma join_printable:
  assumes "\<forall>t \<in> set ts. \<forall>x \<in> set t. printable x"
  shows "\<forall>x \<in> set (join '', '' ts). printable x"
  using assms join_set [of "'', ''" ts] printable_literals(5) by blast

lemma dumps_printable_all:
  shows "\<forall>t. dumps v = Some t \<longrightarrow> (\<forall>x \<in> set t. printable x)"
    and "\<forall>ts. dumps_elems xs = Some ts \<longrightarrow> (\<forall>t \<in> set ts. \<forall>x \<in> set t. printable x)"
    and "\<forall>t. dumps_item kv = Some t \<longrightarrow> (\<forall>x \<in> set t. printable x)"
    and "\<forall>ts. dumps_items kvs = Some ts \<longrightarrow> (\<forall>t \<in> set ts. \<forall>x \<in> set t. printable x)"
proof (induction v and xs and kv and kvs
    rule: dumps.induct dumps_elems.induct dumps_item.induct dumps_items.induct)
  case PNone
  show ?case using printable_literals(2) by simp
next
  case (PBool b)
  show ?case using printable_literals(3,4) by simp
next
  case (PInt i)
  show ?case using str_int_printable by simp
next
  case (PStr s)
  show ?case using encode_printable by simp
next
  case (PList xs)
  have "\<forall>x \<in> set (''['' @ join '', '' ts @ '']''). printable x"
    if "dumps_elems xs = Some ts" for ts
    using join_printable [of ts] PList that printable_literals(7) by auto
  then show ?case by auto
next
  case (PTuple xs)
  have "\<forall>x \<in> set (''['' @ join '', '' ts @ '']''). printable x"
    if "dumps_elems xs = Some ts" for ts
    using join_printable [of ts] PTuple that printable_literals(7) by auto
  then show ?case by auto
next
  case (PDict kvs)
  have "\<forall>x \<in> set (''{'' @ join '', '' ts @ ''}''). printable x"
    if "dumps_items kvs = Some ts" for ts
    using join_printable [of ts] PDict that printable_literals(7) by auto
  then show ?case by auto
next
  case (PObj n)
  show ?case by simp
next
  case Nil_pyval
  show ?case by simp
next
  case (Cons_pyval x xs)
  then show ?case by (auto split: option.splits)
next
  case (Pair_pykey_pyval k v)
  have "\<forall>x \<in> set (encode_basestring_ascii (key_str k) @ '': '' @ t). printable x"
    if "dumps v = Some t" for t
    using Pair_pykey_pyval that encode_printable [of "key_str k"] printable_literals(6) by auto
  then show ?case by auto
next
  case Nil_pykey_pyval_prod
  show ?case by simp
next
  case (Cons_pykey_pyval_prod kv kvs)
  then show ?case by (auto split: option.splits)
qed

lemma dumps_one_line:
  assumes "dumps v = Some t"
  shows "CHR 0x0A \<notin> set t"
proof
  assume "CHR 0x0A \<in> set t"
  with dumps_printable_all(1) [of v] assms have "printable (CHR 0x0A)" by blast
  then show False by (simp add: printable_def)
qed

subsection \<open>Both encoders raise on the same values\<close>

lemma dumps_indent_all:
  shows "\<forall>l. (dumps_indent v l = None) = (dumps v = None)"
    and "\<forall>l. (dumps_indent_elems xs l = None) = (dumps_elems xs = None)"
    and "\<forall>l. (dumps_indent_item kv l = None) = (dumps_item kv = None)"
    and "\<forall>l. (dumps_indent_items kvs l = None) = (dumps_items kvs = None)"
  by (induction v and xs and kv and kvs
      rule: dumps.induct dumps_elems.induct dumps_item.induct dumps_items.induct)
    (auto split: option.splits)

lemma dumps_indent_None: "(dumps_indent v l = None) = (dumps v = None)"
  using dumps_indent_all(1) [of v] by blast

lemma dumps_items_delete:
  "dumps_items kvs \<noteq> None \<Longrightarrow> dumps_items (AList.delete k kvs) \<noteq> None"
  by (induction kvs) (auto simp: delete_simps split: option.splits)

lemma dumps_dict_delete:
  "dumps (PDict kvs) \<noteq> None \<Longrightarrow> dumps (PDict (AList.delete k kvs)) \<noteq> None"
  using dumps_items_delete [of kvs k] by auto

lemma dumps_envelope:
  "dumps (envelope status comment m) =
    (case (dumps comment, dumps m) of
       (Some tc, Some tm) \<Rightarrow>
         Some (''{'' @ encode_basestring_ascii ''wo_status'' @ '': ''
           @ encode_basestring_ascii status @ '', '' @ encode_basestring_ascii ''wo_comment''
           @ '': '' @ tc @ '', '' @ encode_basestring_ascii ''wo_newparams'' @ '': '' @ tm @ ''}'')
     | _ \<Rightarrow> None)"
  by (simp add: envelope_def split: option.splits)

lemma decoded_envelope:
  "decoded (envelope status comment m) = envelope status (decoded comment) (decoded m)"
  by (simp add: envelope_def dict_of_pairs_def)

end
